theory Spec2Isabelle
  imports Complex_Main
begin

section \<open>32-bit floats\<close>

text \<open>
  The program computes on \<^verbatim>\<open>torch\<close> tensors of the default type, 32-bit IEEE floats. A float
  is a finite real of the format, an infinity or a NaN; both zeros are the real 0, since no
  operation of the program tells them apart. An arithmetic operation computes the exact
  result and rounds it to the nearest float, ties to the even significand, and a rounded
  value of magnitude \<open>2\<^sup>1\<^sup>2\<^sup>8\<close> or more is an infinity. A Python \<^verbatim>\<open>float\<close> argument (\<^verbatim>\<open>threshold\<close>,
  \<^verbatim>\<open>gamma\<close>, \<^verbatim>\<open>beta\<close>, \<^verbatim>\<open>alpha\<close>, \<^verbatim>\<open>eps\<close>) is the real it denotes; when it meets a
  tensor (\<^verbatim>\<open>torch.tensor([threshold])\<close>, \<^verbatim>\<open>gamma * V\<close>, \<^verbatim>\<open>delta >= threshold\<close>) it is
  converted to a 32-bit float first.
\<close>

datatype f32 = Fin real | PInf | NInf | NaN

definition round_even :: "real \<Rightarrow> int" where
  \<comment> \<open>the nearest integer, the even one of two nearest\<close>
  "round_even x =
     (if x - of_int \<lfloor>x\<rfloor> < 1 / 2 \<or> (x - of_int \<lfloor>x\<rfloor> = 1 / 2 \<and> even \<lfloor>x\<rfloor>) then \<lfloor>x\<rfloor> else \<lfloor>x\<rfloor> + 1)"

definition fp_round :: "nat \<Rightarrow> int \<Rightarrow> real \<Rightarrow> real" where
  \<comment> \<open>rounding to the binary format with \<open>p\<close> significand bits and least normal exponent
      \<open>emin\<close> (below it the subnormal numbers), the exponent not bounded above\<close>
  "fp_round p emin x =
     (if x = 0 then 0
      else of_int (round_even (x / 2 powr of_int (max emin \<lfloor>log 2 \<bar>x\<bar>\<rfloor> - int p + 1)))
           * 2 powr of_int (max emin \<lfloor>log 2 \<bar>x\<bar>\<rfloor> - int p + 1))"

definition f32_round :: "real \<Rightarrow> f32" where
  "f32_round x =
     (if 2 ^ 128 \<le> \<bar>fp_round 24 (- 126) x\<bar> then (if 0 < x then PInf else NInf)
      else Fin (fp_round 24 (- 126) x))"

definition f64_round :: "real \<Rightarrow> real" where
  \<comment> \<open>Python's own arithmetic on \<^verbatim>\<open>float\<close>; the one use, \<^verbatim>\<open>1. - eps\<close>, cannot overflow\<close>
  "f64_round x = fp_round 53 (- 1022) x"

fun fin :: "f32 \<Rightarrow> real" where
  "fin (Fin x) = x"
| "fin PInf = 0"
| "fin NInf = 0"
| "fin NaN = 0"

fun fneg :: "f32 \<Rightarrow> f32" where
  "fneg (Fin x) = Fin (- x)"
| "fneg PInf = NInf"
| "fneg NInf = PInf"
| "fneg NaN = NaN"

fun fabs :: "f32 \<Rightarrow> f32" where
  "fabs (Fin x) = Fin \<bar>x\<bar>"
| "fabs PInf = PInf"
| "fabs NInf = PInf"
| "fabs NaN = NaN"

fun fadd :: "f32 \<Rightarrow> f32 \<Rightarrow> f32" where
  "fadd (Fin x) (Fin y) = f32_round (x + y)"
| "fadd NaN b = NaN"
| "fadd a NaN = NaN"
| "fadd PInf NInf = NaN"
| "fadd NInf PInf = NaN"
| "fadd PInf b = PInf"
| "fadd a PInf = PInf"
| "fadd NInf b = NInf"
| "fadd a NInf = NInf"

definition fsub :: "f32 \<Rightarrow> f32 \<Rightarrow> f32" where
  "fsub a b = fadd a (fneg b)"

fun fmul :: "f32 \<Rightarrow> f32 \<Rightarrow> f32" where
  "fmul (Fin x) (Fin y) = f32_round (x * y)"
| "fmul NaN b = NaN"
| "fmul a NaN = NaN"
| "fmul (Fin x) b = (if x = 0 then NaN else if 0 < x then b else fneg b)"
| "fmul a (Fin y) = (if y = 0 then NaN else if 0 < y then a else fneg a)"
| "fmul a b = (if a = b then PInf else NInf)"

fun flt :: "f32 \<Rightarrow> f32 \<Rightarrow> bool" where
  \<comment> \<open>\<^verbatim>\<open>a < b\<close>; a comparison with a NaN is false\<close>
  "flt (Fin x) (Fin y) = (x < y)"
| "flt NaN b = False"
| "flt a NaN = False"
| "flt a NInf = False"
| "flt PInf b = False"
| "flt a b = True"

definition fge :: "f32 \<Rightarrow> f32 \<Rightarrow> bool" where
  \<comment> \<open>\<^verbatim>\<open>a >= b\<close>\<close>
  "fge a b \<longleftrightarrow> a \<noteq> NaN \<and> b \<noteq> NaN \<and> \<not> flt a b"

definition pymax :: "f32 \<Rightarrow> f32 \<Rightarrow> f32" where
  \<comment> \<open>Python's \<^verbatim>\<open>max(a, b)\<close>: \<^verbatim>\<open>b\<close> when \<^verbatim>\<open>b > a\<close> holds, and \<^verbatim>\<open>a\<close> otherwise\<close>
  "pymax a b = (if flt a b then b else a)"

section \<open>Tensors\<close>

text \<open>
  A one-dimensional tensor is a list of floats, a two-dimensional one a list of rows, a
  three-dimensional one a list of matrices. \<^verbatim>\<open>torch\<close> leaves open in which order a product
  \<^verbatim>\<open>@\<close> adds up its terms and how \<^verbatim>\<open>Softmax\<close> and \<^verbatim>\<open>dist\<close> round inside: here a product
  rounds every term and adds them from the left, starting from 0, and \<^verbatim>\<open>Softmax\<close> and
  \<^verbatim>\<open>dist\<close> round the exact result once. Shapes are those the constructors
  \<^verbatim>\<open>load_dataset_0\<close> and \<^verbatim>\<open>load_dataset_1f\<close> establish (predicate \<open>wf_mtrl\<close> below); an
  operation on tensors whose shapes do not fit raises in \<^verbatim>\<open>torch\<close>, and the theorems below
  assume the shapes fit.
\<close>

definition dot :: "f32 list \<Rightarrow> f32 list \<Rightarrow> f32" where
  \<comment> \<open>\<^verbatim>\<open>x @ y\<close> for two vectors\<close>
  "dot xs ys = fold (\<lambda>(x, y) acc. fadd acc (fmul x y)) (zip xs ys) (Fin 0)"

definition matvec :: "f32 list list \<Rightarrow> f32 list \<Rightarrow> f32 list" where
  \<comment> \<open>\<^verbatim>\<open>M @ v\<close> for a matrix and a vector\<close>
  "matvec M v = map (\<lambda>row. dot row v) M"

definition ncols :: "'a list list \<Rightarrow> nat" where
  "ncols M = (case M of [] \<Rightarrow> 0 | row # _ \<Rightarrow> length row)"

definition column :: "'a list list \<Rightarrow> nat \<Rightarrow> 'a list" where
  "column M j = map (\<lambda>row. row ! j) M"

definition vecmat :: "f32 list \<Rightarrow> f32 list list \<Rightarrow> f32 list" where
  \<comment> \<open>\<^verbatim>\<open>v @ M\<close> for a vector and a matrix\<close>
  "vecmat v M = map (\<lambda>j. dot v (column M j)) [0..<ncols M]"

definition scale :: "real \<Rightarrow> f32 list \<Rightarrow> f32 list" where
  \<comment> \<open>\<^verbatim>\<open>c * v\<close> for a Python number \<^verbatim>\<open>c\<close>\<close>
  "scale c v = map (\<lambda>x. fmul (f32_round c) x) v"

definition vadd :: "f32 list \<Rightarrow> f32 list \<Rightarrow> f32 list" where
  \<comment> \<open>\<^verbatim>\<open>u + v\<close>\<close>
  "vadd u v = map (\<lambda>(x, y). fadd x y) (zip u v)"

definition tmax :: "f32 list \<Rightarrow> f32" where
  \<comment> \<open>\<^verbatim>\<open>v.max(dim=0)[0]\<close>, a NaN when \<^verbatim>\<open>v\<close> holds one; \<^verbatim>\<open>torch\<close> raises on an empty tensor\<close>
  "tmax v = (if NaN \<in> set v then NaN else fold (\<lambda>x acc. if flt acc x then x else acc) (tl v) (hd v))"

definition max_dim0 :: "f32 list list \<Rightarrow> f32 list" where
  \<comment> \<open>\<^verbatim>\<open>M.max(dim=0)[0]\<close>: the maximum of every column\<close>
  "max_dim0 M = map (\<lambda>j. tmax (column M j)) [0..<ncols M]"

definition argmax :: "f32 list \<Rightarrow> nat" where
  \<comment> \<open>\<^verbatim>\<open>v.argmax()\<close>: the first index that holds the maximum\<close>
  "argmax v = length (takeWhile (\<lambda>x. x \<noteq> tmax v) v)"

fun expw :: "f32 \<Rightarrow> real" where
  "expw (Fin x) = exp x"
| "expw PInf = 0"
| "expw NInf = 0"
| "expw NaN = 0"

definition softmax :: "f32 list \<Rightarrow> f32 list" where
  \<comment> \<open>\<^verbatim>\<open>torch.nn.Softmax(dim=0)(v)\<close>; an entry \<open>-\<infinity>\<close> weighs 0, and a NaN, a \<open>+\<infinity>\<close> or nothing but
      \<open>-\<infinity>\<close> gives NaN everywhere\<close>
  "softmax v =
     (if NaN \<in> set v \<or> PInf \<in> set v \<or> set v \<subseteq> {NInf} then map (\<lambda>x. NaN) v
      else map (\<lambda>x. f32_round (expw x / (\<Sum>y\<leftarrow>v. expw y))) v)"

definition tdist :: "f32 list \<Rightarrow> f32 list \<Rightarrow> f32" where
  \<comment> \<open>\<^verbatim>\<open>torch.dist(u, v)\<close>: the Euclidean norm of the tensor \<^verbatim>\<open>u - v\<close>\<close>
  "tdist u v =
     (let d = map (\<lambda>(x, y). fsub x y) (zip u v)
      in if NaN \<in> set d then NaN
         else if PInf \<in> set d \<or> NInf \<in> set d then PInf
         else f32_round (sqrt (\<Sum>x\<leftarrow>d. (fin x)\<^sup>2)))"

definition zeros :: "nat \<Rightarrow> f32 list" where
  "zeros n = replicate n (Fin 0)"

definition zeros2 :: "nat \<Rightarrow> nat \<Rightarrow> f32 list list" where
  "zeros2 n k = replicate n (zeros k)"

definition onehot :: "nat \<Rightarrow> nat \<Rightarrow> f32 list" where
  \<comment> \<open>row \<open>i\<close> of \<^verbatim>\<open>torch.eye(n)\<close>\<close>
  "onehot n i = map (\<lambda>j. if j = i then Fin 1 else Fin 0) [0..<n]"

definition eye :: "nat \<Rightarrow> f32 list list" where
  "eye n = map (onehot n) [0..<n]"

section \<open>The multi-task model\<close>

text \<open>
  The fields of class \<^verbatim>\<open>MTRL\<close> that the algorithms read. \<open>is_terminal\<close> is an integer
  tensor, tested for truth (non-zero).
\<close>

record mtrl =
  NS :: nat
  NA :: nat
  NP :: nat
  T :: "f32 list list list"
  phi :: "f32 list list"
  is_terminal :: "int list"
  Wtrain :: "f32 list list"
  Ntrain :: nat
  Wtest :: "f32 list list"
  Ntest :: nat

definition wf_mtrl :: "mtrl \<Rightarrow> bool" where
  "wf_mtrl m \<longleftrightarrow>
     0 < NS m \<and> 0 < NA m \<and>
     length (T m) = NS m \<and>
     (\<forall>Ts \<in> set (T m). length Ts = NA m \<and> (\<forall>row \<in> set Ts. length row = NS m)) \<and>
     length (phi m) = NS m \<and> (\<forall>f \<in> set (phi m). length f = NP m) \<and>
     length (is_terminal m) = NS m \<and>
     length (Wtrain m) = Ntrain m \<and> (\<forall>w \<in> set (Wtrain m). length w = NP m) \<and>
     length (Wtest m) = Ntest m \<and> (\<forall>w \<in> set (Wtest m). length w = NP m)"

section \<open>Value iteration\<close>

text \<open>
  The local variables of \<^verbatim>\<open>value_iteration\<close>: \<open>pol\<close> is the source's \<^verbatim>\<open>pi\<close>.
\<close>

record vi_state =
  V :: "f32 list"
  pol :: "f32 list list"
  delta :: f32
  count :: nat

definition vi_init_V :: "mtrl \<Rightarrow> f32 list \<Rightarrow> f32 list" where
  \<comment> \<open>\<^verbatim>\<open>for i in range(self.NS): if self.is_terminal[i]: V[i] = self.phi[i] @ w\<close>\<close>
  "vi_init_V m w =
     fold (\<lambda>i Vc. if is_terminal m ! i \<noteq> 0 then Vc[i := dot (phi m ! i) w] else Vc)
       [0..<NS m] (zeros (NS m))"

definition vi_init :: "mtrl \<Rightarrow> f32 list \<Rightarrow> real \<Rightarrow> vi_state" where
  \<comment> \<open>the state before the loop; \<^verbatim>\<open>delta = torch.tensor([threshold])\<close> is a 32-bit float\<close>
  "vi_init m w threshold =
     \<lparr>V = vi_init_V m w, pol = zeros2 (NS m) (NA m), delta = f32_round threshold, count = 0\<rparr>"

definition vi_Q :: "mtrl \<Rightarrow> f32 list \<Rightarrow> real \<Rightarrow> f32 list \<Rightarrow> nat \<Rightarrow> f32 list" where
  \<comment> \<open>\<^verbatim>\<open>vals = self.phi @ w; vals += gamma * V; Q = self.T[s] @ vals\<close>\<close>
  "vi_Q m w gamma Vc s = matvec (T m ! s) (vadd (matvec (phi m) w) (scale gamma Vc))"

definition vi_body :: "mtrl \<Rightarrow> f32 list \<Rightarrow> real \<Rightarrow> real \<Rightarrow> nat \<Rightarrow> vi_state \<Rightarrow> vi_state" where
  \<comment> \<open>the body of \<^verbatim>\<open>for s in range(self.NS)\<close>\<close>
  "vi_body m w gamma beta s st =
     (let curr_state = V st ! s;
          Q = vi_Q m w gamma (V st) s;
          pol' = (pol st)[s := softmax (scale beta Q)];
          V' = (V st)[s := tmax Q]
      in st\<lparr>V := V', pol := pol', delta := pymax (delta st) (fabs (fsub (V' ! s) curr_state))\<rparr>)"

definition vi_sweep_order :: "nat list \<Rightarrow> mtrl \<Rightarrow> f32 list \<Rightarrow> real \<Rightarrow> real \<Rightarrow> vi_state \<Rightarrow> vi_state" where
  \<comment> \<open>one pass of the \<^verbatim>\<open>while\<close> loop, the per-state updates taken in the given order\<close>
  "vi_sweep_order order m w gamma beta st =
     fold (vi_body m w gamma beta) order (st\<lparr>delta := Fin 0, count := count st + 1\<rparr>)"

partial_function (option) vi_while_order ::
  "nat list \<Rightarrow> mtrl \<Rightarrow> f32 list \<Rightarrow> real \<Rightarrow> real \<Rightarrow> real \<Rightarrow> vi_state \<Rightarrow> vi_state option" where
  \<comment> \<open>\<^verbatim>\<open>while delta >= threshold\<close>: a tensor of 32-bit floats against a Python number, which
      is converted to a 32-bit float\<close>
  "vi_while_order order m w threshold gamma beta st =
     (if fge (delta st) (f32_round threshold)
      then vi_while_order order m w threshold gamma beta (vi_sweep_order order m w gamma beta st)
      else Some st)"

definition value_iteration_order ::
  "nat list \<Rightarrow> mtrl \<Rightarrow> f32 list \<Rightarrow> real \<Rightarrow> real \<Rightarrow> real \<Rightarrow> (f32 list \<times> f32 list list) option" where
  "value_iteration_order order m w threshold gamma beta =
     map_option (\<lambda>st. (V st, pol st))
       (vi_while_order order m w threshold gamma beta (vi_init m w threshold))"

definition vi_sweep :: "mtrl \<Rightarrow> f32 list \<Rightarrow> real \<Rightarrow> real \<Rightarrow> vi_state \<Rightarrow> vi_state" where
  \<comment> \<open>the source's sweep: \<^verbatim>\<open>for s in range(self.NS)\<close>\<close>
  "vi_sweep m = vi_sweep_order [0..<NS m] m"

definition vi_while :: "mtrl \<Rightarrow> f32 list \<Rightarrow> real \<Rightarrow> real \<Rightarrow> real \<Rightarrow> vi_state \<Rightarrow> vi_state option" where
  "vi_while m = vi_while_order [0..<NS m] m"

definition value_iteration ::
  "mtrl \<Rightarrow> f32 list \<Rightarrow> real \<Rightarrow> real \<Rightarrow> real \<Rightarrow> (f32 list \<times> f32 list list) option" where
  \<comment> \<open>\<^verbatim>\<open>MTRL.value_iteration(w, threshold, gamma, beta)\<close>; \<open>None\<close> when the loop never exits\<close>
  "value_iteration m = value_iteration_order [0..<NS m] m"

definition chain2 :: "f32 list \<Rightarrow> f32 list \<Rightarrow> mtrl" where
  \<comment> \<open>The chain of two states and one action: state 0 moves to the terminal state 1 with
      probability 1, and the row of the terminal state is zero.\<close>
  "chain2 f0 f1 =
     \<lparr>NS = 2, NA = 1, NP = length f1, T = [[[Fin 0, Fin 1]], [[Fin 0, Fin 0]]], phi = [f0, f1],
      is_terminal = [0, 1], Wtrain = [], Ntrain = 0, Wtest = [], Ntest = 0\<rparr>"

section \<open>Successor features and generalised policy improvement\<close>

text \<open>
  The local variables of the loop in \<^verbatim>\<open>sfgpi_train\<close>; \<open>psi\<close> is the whole tensor of shape
  \<open>(Ntrain, NS, NP)\<close>, of which the loop for task \<open>widx\<close> writes the slice \<open>widx\<close>.
\<close>

record sf_state =
  psi :: "f32 list list list"
  sf_delta :: f32
  sf_count :: nat

definition sf_update :: "mtrl \<Rightarrow> real \<Rightarrow> f32 list list \<Rightarrow> f32 list list \<Rightarrow> nat \<Rightarrow> f32 list" where
  \<comment> \<open>\<^verbatim>\<open>self.phi[s] + gamma * (pi[s] @ self.T[s] @ psi[widx])\<close>\<close>
  "sf_update m gamma p psiw s =
     vadd (phi m ! s) (scale gamma (vecmat (vecmat (p ! s) (T m ! s)) psiw))"

definition sf_body :: "mtrl \<Rightarrow> real \<Rightarrow> f32 list list \<Rightarrow> nat \<Rightarrow> nat \<Rightarrow> sf_state \<Rightarrow> sf_state" where
  "sf_body m gamma p widx s st =
     (let curr_psi = psi st ! widx ! s;
          psi' = (psi st)[widx := (psi st ! widx)[s := sf_update m gamma p (psi st ! widx) s]]
      in st\<lparr>psi := psi', sf_delta := pymax (sf_delta st) (tdist (psi' ! widx ! s) curr_psi)\<rparr>)"

definition sf_sweep :: "mtrl \<Rightarrow> real \<Rightarrow> f32 list list \<Rightarrow> nat \<Rightarrow> sf_state \<Rightarrow> sf_state" where
  "sf_sweep m gamma p widx st =
     fold (sf_body m gamma p widx) [0..<NS m] (st\<lparr>sf_delta := Fin 0, sf_count := sf_count st + 1\<rparr>)"

partial_function (option) sf_while ::
  "mtrl \<Rightarrow> real \<Rightarrow> real \<Rightarrow> f32 list list \<Rightarrow> nat \<Rightarrow> sf_state \<Rightarrow> sf_state option" where
  "sf_while m threshold gamma p widx st =
     (if fge (sf_delta st) (f32_round threshold)
      then sf_while m threshold gamma p widx (sf_sweep m gamma p widx st)
      else Some st)"

definition sf_task ::
  "mtrl \<Rightarrow> real \<Rightarrow> real \<Rightarrow> (f32 list \<times> f32 list list) list \<Rightarrow> nat \<Rightarrow> f32 list list list
   \<Rightarrow> f32 list list list option" where
  \<comment> \<open>the body of \<^verbatim>\<open>for widx in range(self.Ntrain)\<close>\<close>
  "sf_task m threshold gamma VPtrain widx ps =
     map_option psi
       (sf_while m threshold gamma (snd (VPtrain ! widx)) widx
          \<lparr>psi = ps, sf_delta = f32_round threshold, sf_count = 0\<rparr>)"

fun sf_tasks ::
  "mtrl \<Rightarrow> real \<Rightarrow> real \<Rightarrow> (f32 list \<times> f32 list list) list \<Rightarrow> nat list \<Rightarrow> f32 list list list
   \<Rightarrow> f32 list list list option" where
  "sf_tasks m threshold gamma VPtrain [] ps = Some ps"
| "sf_tasks m threshold gamma VPtrain (widx # rest) ps =
     (case sf_task m threshold gamma VPtrain widx ps of
        None \<Rightarrow> None
      | Some ps' \<Rightarrow> sf_tasks m threshold gamma VPtrain rest ps')"

definition sfgpi_train :: "mtrl \<Rightarrow> real \<Rightarrow> real \<Rightarrow> real \<Rightarrow> f32 list list list option" where
  \<comment> \<open>\<^verbatim>\<open>value_iteration\<close> is called without a threshold, so with its default \<open>0.01\<close>\<close>
  "sfgpi_train m threshold gamma beta =
     (case those (map (\<lambda>wtr. value_iteration m wtr (1 / 100) gamma beta) (Wtrain m)) of
        None \<Rightarrow> None
      | Some VPtrain \<Rightarrow>
          sf_tasks m threshold gamma VPtrain [0..<Ntrain m] (replicate (Ntrain m) (phi m)))"

definition gpi_policy :: "mtrl \<Rightarrow> f32 list \<Rightarrow> real \<Rightarrow> real \<Rightarrow> f32 list \<Rightarrow> f32 list list" where
  \<comment> \<open>\<^verbatim>\<open>Q = self.T @ ((self.phi @ w) + gamma * vmax); pi = torch.nn.Softmax(dim=1)(beta * Q)\<close>,
      the two lines that \<^verbatim>\<open>sfgpi_predict\<close> and \<^verbatim>\<open>usfa_predict\<close> both end with\<close>
  "gpi_policy m w gamma beta vmax =
     (let Q = map (\<lambda>Ts. matvec Ts (vadd (matvec (phi m) w) (scale gamma vmax))) (T m)
      in map (\<lambda>row. softmax (scale beta row)) Q)"

definition sfgpi_predict ::
  "mtrl \<Rightarrow> f32 list list list \<Rightarrow> f32 list \<Rightarrow> real \<Rightarrow> real \<Rightarrow> f32 list list" where
  "sfgpi_predict m ps w gamma beta =
     (let vmax = max_dim0 (map (\<lambda>psic. matvec psic w) ps)
      in gpi_policy m w gamma beta vmax)"

section \<open>Reshaping tensors\<close>

definition trepeat :: "nat \<Rightarrow> nat \<Rightarrow> 'a list list \<Rightarrow> 'a list list" where
  \<comment> \<open>\<^verbatim>\<open>M.repeat(r, c)\<close>\<close>
  "trepeat r c M = concat (replicate r (map (\<lambda>row. concat (replicate c row)) M))"

definition tview :: "nat \<Rightarrow> 'a list list \<Rightarrow> 'a list list" where
  \<comment> \<open>\<^verbatim>\<open>M.view(-1, k)\<close>, for a number of elements that \<open>k\<close> divides\<close>
  "tview k M = (let xs = concat M in map (\<lambda>i. take k (drop (i * k) xs)) [0..<length xs div k])"

definition tcat1 :: "'a list list \<Rightarrow> 'a list list \<Rightarrow> 'a list list" where
  \<comment> \<open>\<^verbatim>\<open>torch.cat((A, B), 1)\<close>\<close>
  "tcat1 A B = map (\<lambda>(a, b). a @ b) (zip A B)"

definition tsplit :: "nat \<Rightarrow> 'a list \<Rightarrow> 'a list list" where
  \<comment> \<open>\<^verbatim>\<open>x.split(n)\<close> for \<open>0 < n\<close>: chunks of \<open>n\<close> elements, the last one shorter when \<open>n\<close> does not
      divide the length; an empty tensor gives one empty chunk\<close>
  "tsplit n xs =
     (if xs = [] then [[]]
      else map (\<lambda>i. take n (drop (i * n) xs)) [0..<(length xs + n - 1) div n])"

section \<open>Universal successor feature approximator: prediction\<close>

definition usfa_predict ::
  "mtrl \<Rightarrow> (f32 list \<Rightarrow> f32 list) \<Rightarrow> f32 list \<Rightarrow> f32 list list option \<Rightarrow> real \<Rightarrow> real
   \<Rightarrow> f32 list list" where
  \<comment> \<open>\<open>usfn\<close> is the forward pass of the network on one input row; the network maps every row
      of a batch on its own\<close>
  "usfa_predict m usfn w C beta gamma =
     (let C' = (case C of None \<Rightarrow> Wtrain m | Some c \<Rightarrow> c);
          NC = length C';
          ip1 = tview (NS m) (trepeat 1 NC (eye (NS m)));
          ip2 = trepeat (NS m) 1 C';
          ip = tcat1 ip1 ip2;
          vals = tsplit NC (matvec (map usfn ip) w);
          vmax = map tmax vals
      in gpi_policy m w gamma beta vmax)"

definition psi_hat :: "mtrl \<Rightarrow> (f32 list \<Rightarrow> f32 list) \<Rightarrow> f32 list list \<Rightarrow> f32 list list list" where
  \<comment> \<open>the approximated successor features of the candidates: \<open>psi_hat ! c ! s\<close> is the
      network's output on the one-hot code of state \<open>s\<close> followed by candidate \<open>c\<close>\<close>
  "psi_hat m usfn C = map (\<lambda>c. map (\<lambda>s. usfn (onehot (NS m) s @ c)) [0..<NS m]) C"

section \<open>Universal value function approximator: training\<close>

datatype error = IndexError

definition uvfa_dataset :: "mtrl \<Rightarrow> f32 list list \<Rightarrow> nat \<Rightarrow> f32 list list" where
  \<comment> \<open>the tensor \<^verbatim>\<open>XY\<close> before it is shuffled\<close>
  "uvfa_dataset m Vtrain npertask =
     (let train_tasks = concat (replicate npertask [0..<Ntrain m]);
          X = tview (NP m) (trepeat 1 (NS m) (map (\<lambda>k. Wtrain m ! k) train_tasks));
          X' = tcat1 (trepeat (npertask * Ntrain m) 1 (eye (NS m))) X;
          Y = map (\<lambda>y. [y]) (concat (replicate npertask (concat Vtrain)))
      in tcat1 X' Y)"

definition uvfa_batch ::
  "('n \<Rightarrow> f32 list list \<Rightarrow> f32 list \<Rightarrow> 'n) \<Rightarrow> f32 list list list \<Rightarrow> nat \<Rightarrow> error + 'n \<Rightarrow> error + 'n" where
  \<comment> \<open>the body of \<^verbatim>\<open>for i in range(bsize)\<close>: one gradient step on \<^verbatim>\<open>XY[i]\<close>, inputs
      \<^verbatim>\<open>XY[i][:,:-1]\<close> and targets \<^verbatim>\<open>XY[i][:,-1]\<close>; \<^verbatim>\<open>XY\<close> is a tuple, and an index past its end
      raises\<close>
  "uvfa_batch step XY i r =
     (case r of
        Inl e \<Rightarrow> Inl e
      | Inr net \<Rightarrow>
          if i < length XY then Inr (step net (map butlast (XY ! i)) (map last (XY ! i)))
          else Inl IndexError)"

definition uvfa_epoch ::
  "('n \<Rightarrow> f32 list list \<Rightarrow> f32 list \<Rightarrow> 'n) \<Rightarrow> f32 list list list \<Rightarrow> nat \<Rightarrow> error + 'n \<Rightarrow> error + 'n" where
  "uvfa_epoch step XY bsize r = fold (uvfa_batch step XY) [0..<bsize] r"

definition uvfa_epochs ::
  "('n \<Rightarrow> f32 list list \<Rightarrow> f32 list \<Rightarrow> 'n) \<Rightarrow> f32 list list list \<Rightarrow> nat \<Rightarrow> nat \<Rightarrow> 'n \<Rightarrow> error + 'n" where
  \<comment> \<open>\<^verbatim>\<open>for epoch in range(epochs)\<close>\<close>
  "uvfa_epochs step XY epochs bsize net =
     fold (\<lambda>epoch. uvfa_epoch step XY bsize) [0..<epochs] (Inr net)"

definition uvfa_train ::
  "mtrl \<Rightarrow> ('n \<Rightarrow> f32 list list \<Rightarrow> f32 list \<Rightarrow> 'n) \<Rightarrow> 'n \<Rightarrow> nat list \<Rightarrow> nat \<Rightarrow> nat \<Rightarrow> nat
   \<Rightarrow> real \<Rightarrow> real \<Rightarrow> (error + 'n) option" where
  \<comment> \<open>\<open>step\<close> is one step of the optimiser on a mini-batch (\<^verbatim>\<open>zero_grad\<close>, forward pass, loss,
      \<^verbatim>\<open>backward\<close>, \<^verbatim>\<open>optim.step\<close>), \<open>UVFN\<close> the fresh network and \<open>perm\<close> the permutation that
      \<^verbatim>\<open>torch.randperm\<close> draws\<close>
  "uvfa_train m step UVFN perm npertask epochs bsize gamma beta =
     (case those (map (\<lambda>widx. value_iteration m (Wtrain m ! widx) (1 / 100) gamma beta)
                    [0..<Ntrain m]) of
        None \<Rightarrow> None
      | Some VP \<Rightarrow>
          (let XY = uvfa_dataset m (map fst VP) npertask;
               XY' = map (\<lambda>j. XY ! j) perm;
               XY'' = tsplit bsize XY'
           in Some (uvfa_epochs step XY'' epochs bsize UVFN)))"

section \<open>Tabular Q-learning\<close>

text \<open>
  The random draws of one step of an episode: the action assignment of
  \<^verbatim>\<open>torch.randint(self.NA, (self.NS,))\<close>, the number of \<^verbatim>\<open>stats.uniform.rvs()\<close>, and the
  sampler of \<^verbatim>\<open>Categorical(probs).sample()\<close>. A run of the program reads them from a stream,
  one element for every step.
\<close>

record draw =
  rand_actions :: "nat list"
  unif :: real
  categorical :: "f32 list \<Rightarrow> nat"

definition q_init :: "mtrl \<Rightarrow> f32 list list \<Rightarrow> f32 list list" where
  \<comment> \<open>\<^verbatim>\<open>for i in range(self.NS): if self.is_terminal[i]: Q[i] *= 0.\<close>\<close>
  "q_init m Q0 =
     fold (\<lambda>i Q. if is_terminal m ! i \<noteq> 0 then Q[i := scale 0 (Q ! i)] else Q)
       [0..<NS m] Q0"

definition q_actions :: "real \<Rightarrow> draw \<Rightarrow> f32 list list \<Rightarrow> nat list" where
  \<comment> \<open>the action assignment of one step; \<^verbatim>\<open>1. - eps\<close> is Python's own arithmetic\<close>
  "q_actions eps d Q = (if unif d < f64_round (1 - eps) then map argmax Q else rand_actions d)"

definition q_step ::
  "mtrl \<Rightarrow> f32 list \<Rightarrow> real \<Rightarrow> real \<Rightarrow> real \<Rightarrow> draw \<Rightarrow> f32 list list \<Rightarrow> nat
   \<Rightarrow> f32 list list \<times> nat" where
  \<comment> \<open>the body of \<^verbatim>\<open>while not self.is_terminal[state]\<close>\<close>
  "q_step m wk gamma alpha eps d Q state =
     (let actions = q_actions eps d Q;
          action = actions ! state;
          new_state = categorical d (T m ! state ! action);
          reward = dot (phi m ! new_state) wk;
          new_action = actions ! new_state;
          target = fadd reward (fmul (f32_round gamma) (Q ! new_state ! new_action));
          Q' = Q[state := (Q ! state)[action :=
                 fadd (Q ! state ! action)
                   (fmul (f32_round alpha) (fsub target (Q ! state ! action)))]]
      in (Q', new_state))"

partial_function (option) q_episode ::
  "mtrl \<Rightarrow> f32 list \<Rightarrow> real \<Rightarrow> real \<Rightarrow> real \<Rightarrow> (nat \<Rightarrow> draw) \<Rightarrow> f32 list list \<Rightarrow> nat \<Rightarrow> nat
   \<Rightarrow> (f32 list list \<times> nat) option" where
  "q_episode m wk gamma alpha eps rng Q state n =
     (if is_terminal m ! state = 0
      then (case q_step m wk gamma alpha eps (rng n) Q state of
              (Q', new_state) \<Rightarrow> q_episode m wk gamma alpha eps rng Q' new_state (Suc n))
      else Some (Q, n))"

fun q_episodes ::
  "mtrl \<Rightarrow> real \<Rightarrow> real \<Rightarrow> real \<Rightarrow> (nat \<Rightarrow> draw) \<Rightarrow> nat list \<Rightarrow> f32 list list \<Rightarrow> nat
   \<Rightarrow> (f32 list list \<times> nat) option" where
  "q_episodes m gamma alpha eps rng [] Q n = Some (Q, n)"
| "q_episodes m gamma alpha eps rng (k # ks) Q n =
     (case q_episode m (Wtrain m ! k) gamma alpha eps rng Q 0 n of
        None \<Rightarrow> None
      | Some (Q', n') \<Rightarrow> q_episodes m gamma alpha eps rng ks Q' n')"

definition q_train_tasks :: "mtrl \<Rightarrow> nat list \<Rightarrow> nat \<Rightarrow> nat list" where
  \<comment> \<open>\<^verbatim>\<open>torch.arange(self.Ntrain).repeat(npertask)\<close>, indexed by the permutation\<close>
  "q_train_tasks m perm npertask =
     (let train_tasks = concat (replicate npertask [0..<Ntrain m])
      in map (\<lambda>j. train_tasks ! j) perm)"

definition q_learning ::
  "mtrl \<Rightarrow> f32 list list \<Rightarrow> nat list \<Rightarrow> (nat \<Rightarrow> draw) \<Rightarrow> nat \<Rightarrow> real \<Rightarrow> real \<Rightarrow> real \<Rightarrow> real
   \<Rightarrow> (f32 list list \<times> f32 list list) option" where
  \<comment> \<open>\<open>Q0\<close> is the tensor that \<^verbatim>\<open>torch.rand(self.NS, self.NA)\<close> draws, \<open>perm\<close> the permutation of
      \<^verbatim>\<open>torch.randperm\<close>, \<open>rng\<close> the stream of the steps' draws\<close>
  "q_learning m Q0 perm rng npertask gamma alpha eps beta =
     map_option (\<lambda>(Q, n). (Q, map (\<lambda>row. softmax (scale beta row)) Q))
       (q_episodes m gamma alpha eps rng (q_train_tasks m perm npertask) (q_init m Q0) 0)"

section \<open>Rounding\<close>

lemma round_even_int: "round_even (of_int n) = n"
  by (simp add: round_even_def)

lemma round_even_bounds: "\<lfloor>x\<rfloor> \<le> round_even x" "round_even x \<le> \<lfloor>x\<rfloor> + 1"
  by (simp_all add: round_even_def)

lemma floor_log2:
  assumes "x \<noteq> 0"
  shows "2 powr of_int \<lfloor>log 2 \<bar>x\<bar>\<rfloor> \<le> \<bar>x\<bar>" "\<bar>x\<bar> < 2 powr of_int (\<lfloor>log 2 \<bar>x\<bar>\<rfloor> + 1)"
proof -
  have p: "0 < \<bar>x\<bar>" using assms by simp
  have "\<lfloor>log 2 \<bar>x\<bar>\<rfloor> = \<lfloor>log 2 \<bar>x\<bar>\<rfloor>" ..
  then have "2 powr of_int \<lfloor>log 2 \<bar>x\<bar>\<rfloor> \<le> \<bar>x\<bar> \<and> \<bar>x\<bar> < 2 powr of_int (\<lfloor>log 2 \<bar>x\<bar>\<rfloor> + 1)"
    using floor_log_eq_powr_iff [OF p, of 2 "\<lfloor>log 2 \<bar>x\<bar>\<rfloor>"] by simp
  then show "2 powr of_int \<lfloor>log 2 \<bar>x\<bar>\<rfloor> \<le> \<bar>x\<bar>" "\<bar>x\<bar> < 2 powr of_int (\<lfloor>log 2 \<bar>x\<bar>\<rfloor> + 1)"
    by simp_all
qed

lemma floor_log2_eq:
  assumes "2 powr of_int e \<le> \<bar>x\<bar>" "\<bar>x\<bar> < 2 powr of_int (e + 1)"
  shows "\<lfloor>log 2 \<bar>x\<bar>\<rfloor> = e"
proof -
  have p: "0 < \<bar>x\<bar>" using assms(1) by (smt (verit) powr_gt_zero)
  show ?thesis using floor_log_eq_powr_iff [OF p, of 2 e] assms by simp
qed

lemma powr2_int_add: "2 powr of_int (a + b) = 2 powr of_int a * (2 powr of_int b :: real)"
  by (simp add: powr_add)

lemma powr2_nat: "0 \<le> j \<Longrightarrow> (2::real) powr of_int j = of_int (2 ^ nat j)"
  by (simp add: powr_realpow [symmetric])

lemma fp_round_grid:
  assumes m: "\<bar>m\<bar> < 2 ^ p" and k: "emin - int p + 1 \<le> k"
  shows "fp_round p emin (of_int m * 2 powr of_int k) = of_int m * 2 powr of_int k"
proof (cases "m = 0")
  case True
  then show ?thesis by (simp add: fp_round_def)
next
  case False
  define x :: real where "x = of_int m * 2 powr of_int k"
  define E where "E = \<lfloor>log 2 \<bar>x\<bar>\<rfloor>"
  have x0: "x \<noteq> 0" using False by (simp add: x_def)
  have "\<bar>x\<bar> = of_int \<bar>m\<bar> * 2 powr of_int k" by (simp add: x_def abs_mult)
  also have "\<dots> < 2 ^ p * 2 powr of_int k"
  proof -
    have "(of_int \<bar>m\<bar> :: real) < of_int (2 ^ p)" using m by (simp only: of_int_less_iff)
    then show ?thesis by simp
  qed
  also have "\<dots> = 2 powr of_int (int p + k)"
    by (simp add: powr_add powr_realpow)
  finally have ub: "\<bar>x\<bar> < 2 powr of_int (int p + k)" .
  have "2 powr of_int E \<le> \<bar>x\<bar>" unfolding E_def by (rule floor_log2(1) [OF x0])
  from this ub have "2 powr (of_int E :: real) < 2 powr of_int (int p + k)"
    by (rule le_less_trans)
  then have "(of_int E :: real) < of_int (int p + k)"
    by (simp only: powr_less_cancel_iff one_less_numeral_iff semiring_norm)
  then have "E < int p + k" by (simp only: of_int_less_iff)
  then have j: "0 \<le> k - (max emin E - int p + 1)" using k by simp
  define j where "j = k - (max emin E - int p + 1)"
  define u :: real where "u = 2 powr of_int (max emin E - int p + 1)"
  have u0: "u \<noteq> 0" by (simp add: u_def)
  have kj: "k = (max emin E - int p + 1) + j" by (simp add: j_def)
  have "2 powr of_int k = u * 2 powr of_int j"
    unfolding u_def by (subst kj) (rule powr2_int_add)
  also have "\<dots> = u * of_int (2 ^ nat j)"
    using j unfolding j_def [symmetric] by (simp only: powr2_nat)
  finally have pk: "2 powr of_int k = u * of_int (2 ^ nat j)" .
  have xu: "x / u = of_int (m * 2 ^ nat j)"
    using u0 by (simp add: x_def pk)
  have "fp_round p emin x = of_int (round_even (x / u)) * u"
    using x0 by (simp add: fp_round_def u_def E_def)
  also have "\<dots> = of_int (m * 2 ^ nat j) * u"
    unfolding xu round_even_int ..
  also have "\<dots> = x"
    by (simp add: x_def pk)
  finally show ?thesis by (simp add: x_def)
qed

lemma round_even_small: "\<bar>y\<bar> < 1 / 2 \<Longrightarrow> round_even y = 0"
proof -
  assume a: "\<bar>y\<bar> < 1 / 2"
  show ?thesis
  proof (cases "0 \<le> y")
    case True
    with a have "\<lfloor>y\<rfloor> = 0" by (simp add: floor_eq_iff)
    with a True show ?thesis by (simp add: round_even_def)
  next
    case False
    with a have "\<lfloor>y\<rfloor> = - 1" by (simp add: floor_eq_iff)
    with a False show ?thesis by (simp add: round_even_def)
  qed
qed

lemma fp_round_binade:
  assumes "2 powr of_int e \<le> \<bar>x\<bar>" "\<bar>x\<bar> < 2 powr of_int (e + 1)"
  shows "fp_round p emin x =
           of_int (round_even (x / 2 powr of_int (max emin e - int p + 1)))
           * 2 powr of_int (max emin e - int p + 1)"
proof -
  have "x \<noteq> 0" using assms(1) by (smt (verit) powr_gt_zero)
  then show ?thesis
    by (simp add: fp_round_def floor_log2_eq [OF assms])
qed

lemma fp_round_tiny:
  assumes "\<bar>x\<bar> < 2 powr of_int (emin - int p)"
  shows "fp_round p emin x = 0"
proof (cases "x = 0")
  case True
  then show ?thesis by (simp add: fp_round_def)
next
  case False
  define E where "E = \<lfloor>log 2 \<bar>x\<bar>\<rfloor>"
  define u :: real where "u = 2 powr of_int (max emin E - int p + 1)"
  have u0: "0 < u" by (simp add: u_def)
  have "2 powr of_int E \<le> \<bar>x\<bar>" unfolding E_def by (rule floor_log2(1) [OF False])
  from this assms have "2 powr (of_int E :: real) < 2 powr of_int (emin - int p)"
    by (rule le_less_trans)
  then have "(of_int E :: real) < of_int (emin - int p)"
    by (simp only: powr_less_cancel_iff one_less_numeral_iff semiring_norm)
  then have "E < emin - int p" by (simp only: of_int_less_iff)
  then have mx: "max emin E = emin" by simp
  have "2 powr of_int (emin - int p + 1) = 2 powr of_int (emin - int p) * (2::real)"
    by (simp add: powr_add)
  then have "\<bar>x\<bar> < u / 2" using assms by (simp add: u_def mx)
  then have "\<bar>x / u\<bar> < 1 / 2" using u0 by (simp add: field_simps)
  then have "round_even (x / u) = 0" by (rule round_even_small)
  then show ?thesis using False by (simp add: fp_round_def u_def E_def)
qed

lemma fp_round_is_grid:
  assumes p: "0 < p"
  shows "\<exists>m k. \<bar>m\<bar> < 2 ^ p \<and> emin - int p + 1 \<le> k
           \<and> fp_round p emin x = of_int m * 2 powr of_int k"
proof (cases "x = 0")
  case True
  then show ?thesis
    by (intro exI [of _ 0] exI [of _ "emin - int p + 1"]) (simp add: fp_round_def)
next
  case False
  define E where "E = \<lfloor>log 2 \<bar>x\<bar>\<rfloor>"
  define e where "e = max emin E"
  define u :: real where "u = 2 powr of_int (e - int p + 1)"
  define n where "n = round_even (x / u)"
  have u0: "0 < u" by (simp add: u_def)
  have r: "fp_round p emin x = of_int n * u"
    using False by (simp add: fp_round_def n_def u_def e_def E_def)
  have "\<bar>x\<bar> < 2 powr of_int (E + 1)" unfolding E_def by (rule floor_log2(2) [OF False])
  also have "\<dots> \<le> 2 powr of_int (e + 1)" by (simp add: e_def)
  also have "\<dots> = 2 ^ p * u"
  proof -
    have "e + 1 = int p + (e - int p + 1)" by simp
    then have "2 powr of_int (e + 1) = 2 powr of_int (int p) * (2 powr of_int (e - int p + 1) :: real)"
      by (metis powr2_int_add)
    then show ?thesis by (simp add: u_def powr_realpow)
  qed
  finally have "\<bar>x\<bar> / u < 2 ^ p" using u0 by (simp add: field_simps)
  then have b: "\<bar>x / u\<bar> < 2 ^ p" using u0 by simp
  have "x / u < of_int (2 ^ p)" "of_int (- (2 ^ p)) \<le> x / u"
    using b unfolding abs_less_iff by simp_all
  then have "\<lfloor>x / u\<rfloor> < 2 ^ p" "- (2 ^ p) \<le> \<lfloor>x / u\<rfloor>"
    by (simp_all only: floor_less_iff le_floor_iff)
  with round_even_bounds [of "x / u"] have nb: "- (2 ^ p) \<le> n" "n \<le> 2 ^ p"
    by (simp_all add: n_def)
  have u2: "u * 2 = 2 powr of_int (e - int p + 2)"
  proof -
    have "e - int p + 2 = (e - int p + 1) + 1" by simp
    then have "2 powr of_int (e - int p + 2) = 2 powr of_int (e - int p + 1) * (2 powr of_int 1 :: real)"
      by (metis powr2_int_add)
    then show ?thesis by (simp add: u_def)
  qed
  have half: "(2::int) ^ p = 2 ^ (p - 1) * 2" using p by (cases p) simp_all
  consider "\<bar>n\<bar> < 2 ^ p" | "n = 2 ^ p" | "n = - (2 ^ p)" using nb by linarith
  then show ?thesis
  proof cases
    case 1
    then show ?thesis
      using r by (intro exI [of _ n] exI [of _ "e - int p + 1"]) (simp add: u_def e_def)
  next
    case 2
    have "of_int n * u = of_int (2 ^ (p - 1)) * (u * 2)"
      unfolding 2 by (subst half) simp
    then have "fp_round p emin x = of_int (2 ^ (p - 1)) * 2 powr of_int (e - int p + 2)"
      using r u2 by simp
    moreover have "\<bar>(2::int) ^ (p - 1)\<bar> < 2 ^ p" using p by (cases p) simp_all
    moreover have "emin - int p + 1 \<le> e - int p + 2" by (simp add: e_def)
    ultimately show ?thesis by blast
  next
    case 3
    have "of_int n * u = of_int (- (2 ^ (p - 1))) * (u * 2)"
      unfolding 3 by (subst half) simp
    then have "fp_round p emin x = of_int (- (2 ^ (p - 1))) * 2 powr of_int (e - int p + 2)"
      using r u2 by simp
    moreover have "\<bar>- ((2::int) ^ (p - 1))\<bar> < 2 ^ p" using p by (cases p) simp_all
    moreover have "emin - int p + 1 \<le> e - int p + 2" by (simp add: e_def)
    ultimately show ?thesis by blast
  qed
qed

lemma fp_round_idem: "0 < p \<Longrightarrow> fp_round p emin (fp_round p emin x) = fp_round p emin x"
proof -
  assume "0 < p"
  from fp_round_is_grid [OF this, of emin x] obtain m k where
    "\<bar>m\<bar> < 2 ^ p" "emin - int p + 1 \<le> k" "fp_round p emin x = of_int m * 2 powr of_int k"
    by blast
  then show ?thesis using fp_round_grid [of m p emin k] by simp
qed

lemma fp_round_sign:
  "0 \<le> x \<Longrightarrow> 0 \<le> fp_round p emin x" "x \<le> 0 \<Longrightarrow> fp_round p emin x \<le> 0"
proof -
  let ?u = "2 powr of_int (max emin \<lfloor>log 2 \<bar>x\<bar>\<rfloor> - int p + 1) :: real"
  have u: "0 < ?u" by simp
  show "0 \<le> fp_round p emin x" if "0 \<le> x"
  proof -
    have "0 \<le> x / ?u" using that u by simp
    then have "0 \<le> \<lfloor>x / ?u\<rfloor>" by simp
    with round_even_bounds(1) [of "x / ?u"] have "0 \<le> round_even (x / ?u)" by linarith
    then show ?thesis by (simp add: fp_round_def)
  qed
  show "fp_round p emin x \<le> 0" if "x \<le> 0"
  proof (cases "x = 0")
    case True
    then show ?thesis by (simp add: fp_round_def)
  next
    case False
    with that have "x / ?u < 0" using u by (simp add: field_simps)
    then have "\<lfloor>x / ?u\<rfloor> < 0" by (simp add: floor_less_iff)
    with round_even_bounds(2) [of "x / ?u"] have "round_even (x / ?u) \<le> 0" by linarith
    then have "of_int (round_even (x / ?u)) * ?u \<le> 0"
      by (simp add: mult_le_0_iff)
    then show ?thesis using False by (simp add: fp_round_def)
  qed
qed

lemma fp_round_bound:
  assumes x: "\<bar>x\<bar> \<le> 2 powr of_int b" and b: "emin \<le> b" and p: "0 < p"
  shows "\<bar>fp_round p emin x\<bar> \<le> 2 powr of_int b"
proof (cases "x = 0")
  case True
  then show ?thesis by (simp add: fp_round_def)
next
  case False
  show ?thesis
  proof (cases "\<bar>x\<bar> = 2 powr of_int b")
    case True
    then have "x = of_int 1 * 2 powr of_int b \<or> x = of_int (- 1) * 2 powr of_int b"
      by (auto simp: abs_if split: if_splits)
    moreover have "\<bar>1::int\<bar> < 2 ^ p" "\<bar>- 1::int\<bar> < 2 ^ p" using p by simp_all
    moreover have "emin - int p + 1 \<le> b" using b p by simp
    ultimately have "fp_round p emin x = x"
      using fp_round_grid [of 1 p emin b] fp_round_grid [of "- 1" p emin b] by auto
    with x show ?thesis by simp
  next
    case ne: False
    with x have lt: "\<bar>x\<bar> < 2 powr of_int b" by simp
    define E where "E = \<lfloor>log 2 \<bar>x\<bar>\<rfloor>"
    define e where "e = max emin E"
    define u :: real where "u = 2 powr of_int (e - int p + 1)"
    define n where "n = round_even (x / u)"
    have u0: "0 < u" by (simp add: u_def)
    have r: "fp_round p emin x = of_int n * u"
      using False by (simp add: fp_round_def n_def u_def e_def E_def)
    have "2 powr of_int E \<le> \<bar>x\<bar>" unfolding E_def by (rule floor_log2(1) [OF False])
    from this lt have "2 powr (of_int E :: real) < 2 powr of_int b" by (rule le_less_trans)
    then have "(of_int E :: real) < of_int b"
      by (simp only: powr_less_cancel_iff one_less_numeral_iff semiring_norm)
    then have Eb: "E < b" by (simp only: of_int_less_iff)
    define c where "c = max emin (E + 1)"
    have cb: "c \<le> b" using Eb b by (simp add: c_def)
    have ce: "0 \<le> c - e" "e \<le> c" by (simp_all add: c_def e_def)
    define j where "j = nat (c - e + int p - 1)"
    have jj: "int j = c - e + int p - 1" using ce p by (simp add: j_def)
    have "\<bar>x\<bar> < 2 powr of_int (E + 1)" unfolding E_def by (rule floor_log2(2) [OF False])
    also have "\<dots> \<le> 2 powr of_int c" by (simp add: c_def)
    also have "\<dots> = 2 ^ j * u"
    proof -
      have "c = int j + (e - int p + 1)" using jj by simp
      then have "2 powr of_int c = 2 powr of_int (int j) * (2 powr of_int (e - int p + 1) :: real)"
        by (metis powr2_int_add)
      then show ?thesis by (simp add: u_def powr_realpow)
    qed
    finally have xc: "\<bar>x\<bar> < 2 ^ j * u" .
    then have "\<bar>x\<bar> / u < 2 ^ j" using u0 by (simp add: field_simps)
    then have bb: "\<bar>x / u\<bar> < 2 ^ j" using u0 by simp
    have "x / u < of_int (2 ^ j)" "of_int (- (2 ^ j)) \<le> x / u"
      using bb unfolding abs_less_iff by simp_all
    then have "\<lfloor>x / u\<rfloor> < 2 ^ j" "- (2 ^ j) \<le> \<lfloor>x / u\<rfloor>"
      by (simp_all only: floor_less_iff le_floor_iff)
    with round_even_bounds [of "x / u"] have "- (2 ^ j) \<le> n" "n \<le> 2 ^ j"
      by (simp_all add: n_def)
    then have "\<bar>n\<bar> \<le> 2 ^ j" by simp
    then have "\<bar>of_int n :: real\<bar> \<le> 2 ^ j"
      by (metis of_int_abs of_int_le_iff of_int_numeral of_int_power)
    then have "\<bar>of_int n * u\<bar> \<le> 2 ^ j * u" using u0 by (simp add: abs_mult)
    also have "\<dots> = 2 powr of_int c"
    proof -
      have "c = int j + (e - int p + 1)" using jj by simp
      then have "2 powr of_int c = 2 powr of_int (int j) * (2 powr of_int (e - int p + 1) :: real)"
        by (metis powr2_int_add)
      then show ?thesis by (simp add: u_def powr_realpow)
    qed
    also have "\<dots> \<le> 2 powr of_int b" using cb by simp
    finally show ?thesis using r by simp
  qed
qed

section \<open>Arithmetic on 32-bit floats\<close>

lemma f32_round_0: "f32_round 0 = Fin 0"
  by (simp add: f32_round_def fp_round_def)

lemma f32_round_not_NaN: "f32_round x \<noteq> NaN"
  by (simp add: f32_round_def)

lemma f32_round_Fin: "f32_round x = Fin y \<Longrightarrow> y = fp_round 24 (- 126) x \<and> \<bar>y\<bar> < 2 ^ 128"
  by (auto simp: f32_round_def split: if_splits)

lemma f32_round_idem: "f32_round x = Fin y \<Longrightarrow> f32_round y = Fin y"
proof -
  assume a: "f32_round x = Fin y"
  then have y: "y = fp_round 24 (- 126) x" "\<bar>y\<bar> < 2 ^ 128" using f32_round_Fin by blast+
  have "fp_round 24 (- 126) y = y" unfolding y(1) by (rule fp_round_idem) simp
  with y(2) show ?thesis by (simp add: f32_round_def)
qed

lemma f32_round_grid:
  assumes "\<bar>m\<bar> < 2 ^ 24" "- 149 \<le> k" "k \<le> 104"
  shows "f32_round (of_int m * 2 powr of_int k) = Fin (of_int m * 2 powr of_int k)"
proof -
  let ?x = "of_int m * 2 powr of_int k :: real"
  have r: "fp_round 24 (- 126) ?x = ?x"
    using assms(1,2) by (intro fp_round_grid) simp_all
  have "(of_int \<bar>m\<bar> :: real) < of_int (2 ^ 24)" using assms(1) by (simp only: of_int_less_iff)
  then have m: "\<bar>of_int m :: real\<bar> < 2 ^ 24" by simp
  have "(2::real) powr of_int k \<le> 2 powr of_int 104"
    using assms(3) by (intro powr_mono) simp_all
  then have k: "(2::real) powr of_int k \<le> 2 ^ 104" by (simp add: powr_realpow [symmetric])
  have "\<bar>?x\<bar> = \<bar>of_int m :: real\<bar> * 2 powr of_int k" by (simp add: abs_mult)
  also have "\<dots> < 2 ^ 24 * 2 ^ 104"
    using m k by (intro mult_less_le_imp_less) simp_all
  finally have "\<bar>?x\<bar> < 2 ^ 128" by simp
  with r show ?thesis by (simp add: f32_round_def)
qed

lemma f32_round_int: "\<bar>m\<bar> < 2 ^ 24 \<Longrightarrow> f32_round (of_int m) = Fin (of_int m)"
  using f32_round_grid [of m 0] by simp

lemma f32_round_dyadic:
  "\<bar>m\<bar> < 2 ^ 24 \<Longrightarrow> j \<le> 149 \<Longrightarrow> f32_round (of_int m / 2 ^ j) = Fin (of_int m / 2 ^ j)"
proof -
  assume a: "\<bar>m\<bar> < 2 ^ 24" "j \<le> 149"
  have "(2::real) powr of_int (- int j) = 1 / 2 ^ j"
    by (simp add: powr_minus powr_realpow divide_simps)
  then show ?thesis using f32_round_grid [of m "- int j"] a by simp
qed

lemma f32_round_tiny: "\<bar>x\<bar> < 1 / 2 ^ 150 \<Longrightarrow> f32_round x = Fin 0"
proof -
  assume a: "\<bar>x\<bar> < 1 / 2 ^ 150"
  have "(2::real) powr of_int (- 126 - int 24) = 1 / 2 ^ 150"
    using powr_realpow [of 2 150] by (simp add: powr_minus divide_simps)
  with a have "fp_round 24 (- 126) x = 0" by (intro fp_round_tiny) simp
  then show ?thesis by (simp add: f32_round_def)
qed

lemma f32_round_bound:
  assumes "\<bar>x\<bar> \<le> 2 ^ b" "b \<le> 127"
  shows "\<exists>y. f32_round x = Fin y \<and> \<bar>y\<bar> \<le> 2 ^ b \<and> f32_round y = Fin y"
proof -
  have "\<bar>x\<bar> \<le> 2 powr of_int (int b)" using assms(1) by (simp add: powr_realpow)
  then have "\<bar>fp_round 24 (- 126) x\<bar> \<le> 2 powr of_int (int b)"
    by (rule fp_round_bound) simp_all
  then have le: "\<bar>fp_round 24 (- 126) x\<bar> \<le> 2 ^ b" by (simp add: powr_realpow)
  also have "(2::real) ^ b \<le> 2 ^ 127" using assms(2) by (intro power_increasing) simp_all
  finally have "\<bar>fp_round 24 (- 126) x\<bar> < 2 ^ 128" by simp
  then have "f32_round x = Fin (fp_round 24 (- 126) x)" by (simp add: f32_round_def)
  with le f32_round_idem show ?thesis by blast
qed

lemma fge_refl: "a \<noteq> NaN \<Longrightarrow> fge a a"
  by (cases a) (simp_all add: fge_def)

lemma fge_Fin: "fge (Fin x) (Fin y) \<longleftrightarrow> y \<le> x"
  by (auto simp: fge_def)

lemma pymax_Fin: "pymax (Fin x) (Fin y) = Fin (max x y)"
  by (simp add: pymax_def max_def)

lemma fsub_Fin: "fsub (Fin x) (Fin y) = f32_round (x - y)"
  by (simp add: fsub_def)

section \<open>The loop of value iteration\<close>

lemma vi_while_step:
  "fge (delta st) (f32_round thr) \<Longrightarrow>
   vi_while m w thr gamma beta st = vi_while m w thr gamma beta (vi_sweep m w gamma beta st)"
  unfolding vi_while_def vi_sweep_def by (subst vi_while_order.simps) simp

lemma vi_while_exit:
  "\<not> fge (delta st) (f32_round thr) \<Longrightarrow> vi_while m w thr gamma beta st = Some st"
  unfolding vi_while_def by (subst vi_while_order.simps) simp

lemma vi_while_order_step:
  "fge (delta st) (f32_round thr) \<Longrightarrow>
   vi_while_order order m w thr gamma beta st =
   vi_while_order order m w thr gamma beta (vi_sweep_order order m w gamma beta st)"
  by (subst vi_while_order.simps) simp

lemma vi_while_order_exit:
  "\<not> fge (delta st) (f32_round thr) \<Longrightarrow> vi_while_order order m w thr gamma beta st = Some st"
  by (subst vi_while_order.simps) simp

section \<open>Sweeps that update in place\<close>

lemma upt_Suc_snoc: "[0..<Suc k] = [0..<k] @ [k]"
  by simp

lemma inplace_fold:
  fixes f :: "'a list \<Rightarrow> nat \<Rightarrow> 'a" and dist :: "'a \<Rightarrow> 'a \<Rightarrow> f32"
  defines "step \<equiv> (\<lambda>s (ys, d). (ys[s := f ys s], pymax d (dist ((ys[s := f ys s]) ! s) (ys ! s))))"
  assumes "k \<le> length xs"
  shows "length (fst (fold step [0..<k] (xs, d0))) = length xs
       \<and> drop k (fst (fold step [0..<k] (xs, d0))) = drop k xs
       \<and> (\<forall>s<k. fst (fold step [0..<k] (xs, d0)) ! s =
             f (take s (fst (fold step [0..<k] (xs, d0))) @ drop s xs) s)
       \<and> snd (fold step [0..<k] (xs, d0)) =
           fold (\<lambda>s d. pymax d (dist (fst (fold step [0..<k] (xs, d0)) ! s) (xs ! s))) [0..<k] d0"
  using assms(2)
proof (induction k)
  case 0
  then show ?case by simp
next
  case (Suc k)
  define G where "G = fold step [0..<k] (xs, d0)"
  define ys where "ys = fst G"
  define d where "d = snd G"
  have kl: "k < length xs" using Suc.prems by simp
  from Suc.IH kl have len: "length ys = length xs"
    and dr: "drop k ys = drop k xs"
    and gs: "\<And>s. s < k \<Longrightarrow> ys ! s = f (take s ys @ drop s xs) s"
    and dl: "d = fold (\<lambda>s d. pymax d (dist (ys ! s) (xs ! s))) [0..<k] d0"
    by (simp_all add: G_def ys_def d_def)
  define ys' where "ys' = ys[k := f ys k]"
  have "fold step [0..<Suc k] (xs, d0) = step k G"
    by (simp add: G_def)
  also have "\<dots> = (ys', pymax d (dist (ys' ! k) (ys ! k)))"
    by (simp add: step_def ys_def d_def ys'_def split_beta)
  finally have G': "fold step [0..<Suc k] (xs, d0) = (ys', pymax d (dist (ys' ! k) (ys ! k)))" .
  have ysk: "ys ! k = xs ! k"
    using dr kl len by (metis Cons_nth_drop_Suc list.inject)
  have split: "ys = take k ys' @ drop k xs"
    using dr by (simp add: ys'_def) (metis append_take_drop_id)
  have 1: "length ys' = length xs" by (simp add: ys'_def len)
  have 2: "drop (Suc k) ys' = drop (Suc k) xs"
    using dr by (simp add: ys'_def) (metis drop_Suc tl_drop)
  have 3: "ys' ! s = f (take s ys' @ drop s xs) s" if "s < Suc k" for s
  proof (cases "s = k")
    case True
    then show ?thesis using split kl len by (simp add: ys'_def)
  next
    case False
    with that have "s < k" by simp
    then show ?thesis using gs [of s] by (simp add: ys'_def)
  qed
  have same: "fold (\<lambda>s d. pymax d (dist (ys' ! s) (xs ! s))) [0..<k] d0 =
     fold (\<lambda>s d. pymax d (dist (ys ! s) (xs ! s))) [0..<k] d0"
    by (rule fold_cong) (simp_all add: ys'_def)
  have 4: "pymax d (dist (ys' ! k) (ys ! k)) =
     fold (\<lambda>s d. pymax d (dist (ys' ! s) (xs ! s))) [0..<Suc k] d0"
    by (simp add: same dl ysk)
  show ?case
    unfolding G' using 1 2 3 4 by simp
qed

lemma vi_fold_proj:
  "(V (fold (vi_body m w gamma beta) ss st), delta (fold (vi_body m w gamma beta) ss st)) =
     fold (\<lambda>s (ys, d). (ys[s := tmax (vi_Q m w gamma ys s)],
                        pymax d (fabs (fsub ((ys[s := tmax (vi_Q m w gamma ys s)]) ! s) (ys ! s)))))
       ss (V st, delta st)"
  by (induction ss arbitrary: st) (simp_all add: vi_body_def Let_def)

lemma vi_fold_V:
  fixes m :: mtrl and w :: "f32 list" and gamma beta :: real and st :: vi_state and k :: nat
  assumes "k \<le> length (V st)"
  defines "G \<equiv> fold (vi_body m w gamma beta) [0..<k] st"
  shows "length (V G) = length (V st)"
    and "drop k (V G) = drop k (V st)"
    and "\<And>s. s < k \<Longrightarrow> V G ! s = tmax (vi_Q m w gamma (take s (V G) @ drop s (V st)) s)"
    and "delta G = fold (\<lambda>s d. pymax d (fabs (fsub (V G ! s) (V st ! s)))) [0..<k] (delta st)"
proof -
  let ?step = "\<lambda>s (ys, d). (ys[s := tmax (vi_Q m w gamma ys s)],
                        pymax d (fabs (fsub ((ys[s := tmax (vi_Q m w gamma ys s)]) ! s) (ys ! s))))"
  have p: "fold ?step [0..<k] (V st, delta st) = (V G, delta G)"
    unfolding G_def by (rule vi_fold_proj [symmetric])
  note * = inplace_fold [OF assms(1), of "\<lambda>ys s. tmax (vi_Q m w gamma ys s)" "\<lambda>a b. fabs (fsub a b)" "delta st",
      unfolded p fst_conv snd_conv]
  from * show "length (V G) = length (V st)" by blast
  from * show "drop k (V G) = drop k (V st)" by blast
  from * show "\<And>s. s < k \<Longrightarrow> V G ! s = tmax (vi_Q m w gamma (take s (V G) @ drop s (V st)) s)"
    by blast
  from * show "delta G = fold (\<lambda>s d. pymax d (fabs (fsub (V G ! s) (V st ! s)))) [0..<k] (delta st)"
    by blast
qed

lemma vi_fold_pol:
  assumes "k \<le> length (V st)" "k \<le> length (pol st)"
  shows "length (pol (fold (vi_body m w gamma beta) [0..<k] st)) = length (pol st)
     \<and> (\<forall>s<k. pol (fold (vi_body m w gamma beta) [0..<k] st) ! s =
          softmax (scale beta (vi_Q m w gamma
            (take s (V (fold (vi_body m w gamma beta) [0..<k] st)) @ drop s (V st)) s)))"
  using assms
proof (induction k)
  case 0
  then show ?case by simp
next
  case (Suc k)
  define G where "G = fold (vi_body m w gamma beta) [0..<k] st"
  define G' where "G' = fold (vi_body m w gamma beta) [0..<Suc k] st"
  have G': "G' = vi_body m w gamma beta k G" by (simp add: G_def G'_def)
  have kl: "k \<le> length (V st)" "k < length (V st)" "k < length (pol st)" using Suc.prems by simp_all
  have lenV: "length (V G) = length (V st)" and dr: "drop k (V G) = drop k (V st)"
    unfolding G_def using vi_fold_V [OF kl(1)] by blast+
  from Suc.IH kl have lenP: "length (pol G) = length (pol st)"
    and ih: "\<And>s. s < k \<Longrightarrow> pol G ! s =
        softmax (scale beta (vi_Q m w gamma (take s (V G) @ drop s (V st)) s))"
    by (simp_all add: G_def)
  have V': "V G' = (V G)[k := tmax (vi_Q m w gamma (V G) k)]"
    and P': "pol G' = (pol G)[k := softmax (scale beta (vi_Q m w gamma (V G) k))]"
    by (simp_all add: G' vi_body_def Let_def)
  have split: "V G = take k (V G') @ drop k (V st)"
    using dr by (simp add: V') (metis append_take_drop_id)
  have "pol G' ! s = softmax (scale beta (vi_Q m w gamma (take s (V G') @ drop s (V st)) s))"
    if "s < Suc k" for s
  proof (cases "s = k")
    case True
    then show ?thesis using split kl lenP by (simp add: P')
  next
    case False
    with that have "s < k" by simp
    then show ?thesis using ih [of s] by (simp add: P' V')
  qed
  then show ?case
    unfolding G'_def [symmetric] by (simp add: P' lenP)
qed

lemma vi_while_order_iter:
  assumes "\<not> fge (delta ((vi_sweep_order order m w gamma beta ^^ n) st)) (f32_round thr)"
    and "\<And>k. k < n \<Longrightarrow> fge (delta ((vi_sweep_order order m w gamma beta ^^ k) st)) (f32_round thr)"
  shows "vi_while_order order m w thr gamma beta st =
           Some ((vi_sweep_order order m w gamma beta ^^ n) st)"
  using assms
proof (induction n arbitrary: st)
  case 0
  then show ?case by (simp add: vi_while_order_exit)
next
  case (Suc n)
  let ?f = "vi_sweep_order order m w gamma beta"
  have d: "fge (delta st) (f32_round thr)" using Suc.prems(2) [of 0] by simp
  have "vi_while_order order m w thr gamma beta (?f st) = Some ((?f ^^ n) (?f st))"
  proof (rule Suc.IH)
    show "\<not> fge (delta ((?f ^^ n) (?f st))) (f32_round thr)"
      using Suc.prems(1) by (simp add: funpow_swap1)
    show "fge (delta ((?f ^^ k) (?f st))) (f32_round thr)" if "k < n" for k
      using Suc.prems(2) [of "Suc k"] that by (simp add: funpow_swap1)
  qed
  then show ?case
    by (simp add: vi_while_order_step [OF d] funpow_swap1)
qed

lemma vi_while_order_Some:
  assumes "vi_while_order order m w thr gamma beta st = Some st'"
  shows "\<exists>n. st' = (vi_sweep_order order m w gamma beta ^^ n) st \<and> \<not> fge (delta st') (f32_round thr)
            \<and> (\<forall>k<n. fge (delta ((vi_sweep_order order m w gamma beta ^^ k) st)) (f32_round thr))"
proof (induct rule: vi_while_order.raw_induct [OF _ assms])
  case (1 loop order m w thr gamma beta st st')
  let ?f = "vi_sweep_order order m w gamma beta"
  show ?case
  proof (cases "fge (delta st) (f32_round thr)")
    case True
    with "1.hyps"(2) have "loop order m w thr gamma beta (?f st) = Some st'" by simp
    from "1.hyps"(1) [OF this] obtain n where n: "st' = (?f ^^ n) (?f st)" "\<not> fge (delta st') (f32_round thr)"
      "\<forall>k<n. fge (delta ((?f ^^ k) (?f st))) (f32_round thr)" by blast
    have "\<forall>k<Suc n. fge (delta ((?f ^^ k) st)) (f32_round thr)"
    proof (intro allI impI)
      fix k assume "k < Suc n"
      then show "fge (delta ((?f ^^ k) st)) (f32_round thr)"
        using True n(3) by (cases k) (simp_all add: funpow_swap1)
    qed
    with n(1,2) show ?thesis
      by (intro exI [of _ "Suc n"]) (simp add: funpow_swap1)
  next
    case False
    with "1.hyps"(2) have "st' = st" by simp
    with False show ?thesis by (intro exI [of _ 0]) simp
  qed
qed

lemma vi_while_order_iff:
  "vi_while_order order m w thr gamma beta st = Some st' \<longleftrightarrow>
     (\<exists>n. st' = (vi_sweep_order order m w gamma beta ^^ n) st \<and> \<not> fge (delta st') (f32_round thr)
        \<and> (\<forall>k<n. fge (delta ((vi_sweep_order order m w gamma beta ^^ k) st)) (f32_round thr)))"
  using vi_while_order_Some vi_while_order_iter by blast

lemma sf_fold_proj:
  assumes "widx < length (psi st)"
  shows "length (psi (fold (sf_body m gamma p widx) ss st)) = length (psi st)
     \<and> (psi (fold (sf_body m gamma p widx) ss st) ! widx,
          sf_delta (fold (sf_body m gamma p widx) ss st)) =
         fold (\<lambda>s (ys, d). (ys[s := sf_update m gamma p ys s],
                            pymax d (tdist ((ys[s := sf_update m gamma p ys s]) ! s) (ys ! s))))
           ss (psi st ! widx, sf_delta st)
     \<and> (\<forall>c. c \<noteq> widx \<longrightarrow> psi (fold (sf_body m gamma p widx) ss st) ! c = psi st ! c)"
  using assms
proof (induction ss arbitrary: st)
  case Nil
  then show ?case by simp
next
  case (Cons s ss)
  define st1 where "st1 = sf_body m gamma p widx s st"
  have 1: "psi st1 = (psi st)[widx := (psi st ! widx)[s := sf_update m gamma p (psi st ! widx) s]]"
    and 2: "sf_delta st1 = pymax (sf_delta st)
       (tdist (((psi st ! widx)[s := sf_update m gamma p (psi st ! widx) s]) ! s) (psi st ! widx ! s))"
    using Cons.prems by (simp_all add: st1_def sf_body_def Let_def)
  have len: "widx < length (psi st1)" using Cons.prems by (simp add: 1)
  have 3: "psi st1 ! widx = (psi st ! widx)[s := sf_update m gamma p (psi st ! widx) s]"
    using Cons.prems by (simp add: 1)
  have 4: "\<And>c. c \<noteq> widx \<Longrightarrow> psi st1 ! c = psi st ! c" by (simp add: 1)
  show ?case
    using Cons.IH [OF len] by (simp add: st1_def [symmetric] 2 3 4) (simp add: 1)
qed

lemma sf_fold_psi:
  fixes m :: mtrl and gamma :: real and p :: "f32 list list" and st :: sf_state and widx k :: nat
  assumes "widx < length (psi st)" "k \<le> length (psi st ! widx)"
  defines "G \<equiv> fold (sf_body m gamma p widx) [0..<k] st"
  shows "length (psi G ! widx) = length (psi st ! widx)"
    and "\<And>s. s < k \<Longrightarrow> psi G ! widx ! s =
           sf_update m gamma p (take s (psi G ! widx) @ drop s (psi st ! widx)) s"
    and "sf_delta G =
           fold (\<lambda>s d. pymax d (tdist (psi G ! widx ! s) (psi st ! widx ! s))) [0..<k] (sf_delta st)"
    and "length (psi G) = length (psi st)"
    and "\<And>c. c \<noteq> widx \<Longrightarrow> psi G ! c = psi st ! c"
proof -
  let ?step = "\<lambda>s (ys, d). (ys[s := sf_update m gamma p ys s],
                            pymax d (tdist ((ys[s := sf_update m gamma p ys s]) ! s) (ys ! s)))"
  note pr = sf_fold_proj [OF assms(1), of m gamma p "[0..<k]", folded G_def]
  from pr have p: "fold ?step [0..<k] (psi st ! widx, sf_delta st) = (psi G ! widx, sf_delta G)"
    by simp
  note * = inplace_fold [OF assms(2), of "sf_update m gamma p" tdist "sf_delta st",
      unfolded p fst_conv snd_conv]
  from * show "length (psi G ! widx) = length (psi st ! widx)" by blast
  from * show "\<And>s. s < k \<Longrightarrow> psi G ! widx ! s =
           sf_update m gamma p (take s (psi G ! widx) @ drop s (psi st ! widx)) s" by blast
  from * show "sf_delta G =
           fold (\<lambda>s d. pymax d (tdist (psi G ! widx ! s) (psi st ! widx ! s))) [0..<k] (sf_delta st)"
    by blast
  from pr show "length (psi G) = length (psi st)" by blast
  from pr show "\<And>c. c \<noteq> widx \<Longrightarrow> psi G ! c = psi st ! c" by blast
qed

lemma vi_sweep_lengths:
  assumes "length (V st) = NS m" "length (pol st) = NS m"
  shows "length (V (vi_sweep m w gamma beta st)) = NS m"
    and "length (pol (vi_sweep m w gamma beta st)) = NS m"
proof -
  let ?st = "st\<lparr>delta := Fin 0, count := count st + 1\<rparr>"
  have a: "NS m \<le> length (V ?st)" "NS m \<le> length (pol ?st)" using assms by simp_all
  show "length (V (vi_sweep m w gamma beta st)) = NS m"
    unfolding vi_sweep_def vi_sweep_order_def using vi_fold_V(1) [OF a(1)] assms by simp
  show "length (pol (vi_sweep m w gamma beta st)) = NS m"
    unfolding vi_sweep_def vi_sweep_order_def using vi_fold_pol [OF a] assms by simp
qed

lemma vi_sweep_nth:
  assumes "length (V st) = NS m" "length (pol st) = NS m" "s < NS m"
  shows "V (vi_sweep m w gamma beta st) ! s =
           tmax (vi_Q m w gamma (take s (V (vi_sweep m w gamma beta st)) @ drop s (V st)) s)"
    and "pol (vi_sweep m w gamma beta st) ! s =
           softmax (scale beta
             (vi_Q m w gamma (take s (V (vi_sweep m w gamma beta st)) @ drop s (V st)) s))"
proof -
  let ?st = "st\<lparr>delta := Fin 0, count := count st + 1\<rparr>"
  have a: "NS m \<le> length (V ?st)" "NS m \<le> length (pol ?st)" using assms by simp_all
  show "V (vi_sweep m w gamma beta st) ! s =
           tmax (vi_Q m w gamma (take s (V (vi_sweep m w gamma beta st)) @ drop s (V st)) s)"
    unfolding vi_sweep_def vi_sweep_order_def using vi_fold_V(3) [OF a(1) assms(3)] by simp
  show "pol (vi_sweep m w gamma beta st) ! s =
           softmax (scale beta
             (vi_Q m w gamma (take s (V (vi_sweep m w gamma beta st)) @ drop s (V st)) s))"
    unfolding vi_sweep_def vi_sweep_order_def using vi_fold_pol [OF a] assms(3) by simp
qed

lemma vi_sweep_delta:
  assumes "length (V st) = NS m"
  shows "delta (vi_sweep m w gamma beta st) =
           fold (\<lambda>s d. pymax d (fabs (fsub (V (vi_sweep m w gamma beta st) ! s) (V st ! s))))
             [0..<NS m] (Fin 0)"
proof -
  let ?st = "st\<lparr>delta := Fin 0, count := count st + 1\<rparr>"
  have a: "NS m \<le> length (V ?st)" using assms by simp
  show ?thesis
    unfolding vi_sweep_def vi_sweep_order_def using vi_fold_V(4) [OF a] by simp
qed

lemma sf_sweep_nth:
  assumes "widx < length (psi st)" "length (psi st ! widx) = NS m" "s < NS m"
  shows "psi (sf_sweep m gamma p widx st) ! widx ! s =
           sf_update m gamma p
             (take s (psi (sf_sweep m gamma p widx st) ! widx) @ drop s (psi st ! widx)) s"
proof -
  let ?st = "st\<lparr>sf_delta := Fin 0, sf_count := sf_count st + 1\<rparr>"
  have a: "widx < length (psi ?st)" "NS m \<le> length (psi ?st ! widx)" using assms by simp_all
  show ?thesis
    unfolding sf_sweep_def using sf_fold_psi(2) [OF a assms(3)] by simp
qed

lemma sf_sweep_delta:
  assumes "widx < length (psi st)" "length (psi st ! widx) = NS m"
  shows "sf_delta (sf_sweep m gamma p widx st) =
           fold (\<lambda>s d. pymax d (tdist (psi (sf_sweep m gamma p widx st) ! widx ! s)
                                        (psi st ! widx ! s))) [0..<NS m] (Fin 0)"
    and "length (psi (sf_sweep m gamma p widx st)) = length (psi st)"
    and "length (psi (sf_sweep m gamma p widx st) ! widx) = NS m"
    and "\<And>c. c \<noteq> widx \<Longrightarrow> psi (sf_sweep m gamma p widx st) ! c = psi st ! c"
proof -
  let ?st = "st\<lparr>sf_delta := Fin 0, sf_count := sf_count st + 1\<rparr>"
  have a: "widx < length (psi ?st)" "NS m \<le> length (psi ?st ! widx)" using assms by simp_all
  show "sf_delta (sf_sweep m gamma p widx st) =
           fold (\<lambda>s d. pymax d (tdist (psi (sf_sweep m gamma p widx st) ! widx ! s)
                                        (psi st ! widx ! s))) [0..<NS m] (Fin 0)"
    unfolding sf_sweep_def using sf_fold_psi(3) [OF a] by simp
  show "length (psi (sf_sweep m gamma p widx st)) = length (psi st)"
    unfolding sf_sweep_def using sf_fold_psi(4) [OF a] by simp
  show "length (psi (sf_sweep m gamma p widx st) ! widx) = NS m"
    unfolding sf_sweep_def using sf_fold_psi(1) [OF a] assms by simp
  show "\<And>c. c \<noteq> widx \<Longrightarrow> psi (sf_sweep m gamma p widx st) ! c = psi st ! c"
    unfolding sf_sweep_def using sf_fold_psi(5) [OF a] by simp
qed

section \<open>Value iteration on the chain of two states\<close>

lemma upt2: "[0..<2] = [0, Suc 0]"
  by (simp add: upt_rec)

lemma f32_round_1: "f32_round 1 = Fin 1"
  using f32_round_int [of 1] by simp

lemma fadd_repr: "fadd a b = Fin r \<Longrightarrow> f32_round r = Fin r"
  by (cases a; cases b) (auto dest: f32_round_idem)

lemma dot_repr: "dot xs ys = Fin r \<Longrightarrow> f32_round r = Fin r"
proof -
  assume a: "dot xs ys = Fin r"
  show ?thesis
  proof (cases "zip xs ys" rule: rev_cases)
    case Nil
    with a show ?thesis by (simp add: dot_def f32_round_0)
  next
    case (snoc zs z)
    with a show ?thesis by (auto simp: dot_def split_beta dest: fadd_repr)
  qed
qed

lemma f32_repr_neg: "f32_round r = Fin r \<Longrightarrow> f32_round (- r) = Fin (- r)"
proof -
  assume a: "f32_round r = Fin r"
  then have r: "r = fp_round 24 (- 126) r" "\<bar>r\<bar> < 2 ^ 128" using f32_round_Fin by blast+
  obtain m k where mk: "\<bar>m\<bar> < 2 ^ 24" "- 126 - int 24 + 1 \<le> k"
    "fp_round 24 (- 126) r = of_int m * 2 powr of_int k"
    using fp_round_is_grid [of 24 "- 126" r] by auto
  have "fp_round 24 (- 126) (of_int (- m) * 2 powr of_int k) = of_int (- m) * 2 powr of_int k"
    using mk(1,2) by (intro fp_round_grid) simp_all
  then have "fp_round 24 (- 126) (- r) = - r" using mk(3) r(1) by simp
  with r(2) show ?thesis by (simp add: f32_round_def)
qed

lemma softmax_single: "softmax [Fin x] = [Fin 1]"
  by (simp add: softmax_def f32_round_1)

lemma tmax_single: "tmax [Fin x] = Fin x"
  by (simp add: tmax_def)

lemma dot_01:
  "f32_round x1 = Fin x1 \<Longrightarrow> dot [Fin 0, Fin 1] [Fin x0, Fin x1] = Fin x1"
  by (simp add: dot_def f32_round_0)

lemma dot_00: "dot [Fin 0, Fin 0] [Fin x0, Fin x1] = Fin 0"
  by (simp add: dot_def f32_round_0)

lemma chain2_init:
  "vi_init (chain2 f0 f1) w thr =
     \<lparr>V = [Fin 0, dot f1 w], pol = [[Fin 0], [Fin 0]], delta = f32_round thr, count = 0\<rparr>"
  by (simp add: vi_init_def vi_init_V_def chain2_def upt2 zeros_def zeros2_def numeral_2_eq_2)

lemma chain2_Q0:
  assumes "dot f0 w = Fin r0" "dot f1 w = Fin r" "f32_round gamma = Fin g"
    and "f32_round (g * a) = Fin ga" "f32_round (r0 + ga) = Fin v0"
    and "f32_round (g * b) = Fin gb" "f32_round (r + gb) = Fin q"
  shows "vi_Q (chain2 f0 f1) w gamma [Fin a, Fin b] 0 = [Fin q]"
proof -
  have q: "f32_round q = Fin q" using assms(7) by (rule f32_round_idem)
  show ?thesis
    using assms
    by (simp add: vi_Q_def chain2_def matvec_def vadd_def scale_def dot_01 [OF q])
qed

lemma chain2_Q1:
  assumes "dot f0 w = Fin r0" "dot f1 w = Fin r" "f32_round gamma = Fin g"
    and "f32_round (g * a) = Fin ga" "f32_round (r0 + ga) = Fin v0"
    and "f32_round (g * b) = Fin gb" "f32_round (r + gb) = Fin q"
  shows "vi_Q (chain2 f0 f1) w gamma [Fin a, Fin b] (Suc 0) = [Fin 0]"
  using assms
  by (simp add: vi_Q_def chain2_def matvec_def vadd_def scale_def dot_00)

lemma chain2_sweep:
  assumes D: "dot f0 w = Fin r0" "dot f1 w = Fin r"
    and G: "f32_round gamma = Fin g" and B: "f32_round beta = Fin bt"
    and A: "f32_round (g * a) = Fin ga" "f32_round (r0 + ga) = Fin v0"
    and Bq: "f32_round (g * b) = Fin gb" "f32_round (r + gb) = Fin q"
    and C: "f32_round (g * q) = Fin gq" "f32_round (r0 + gq) = Fin v0'"
    and S: "f32_round (bt * q) = Fin bq"
  shows "vi_sweep (chain2 f0 f1) w gamma beta \<lparr>V = [Fin a, Fin b], pol = P, delta = d, count = n\<rparr> =
     \<lparr>V = [Fin q, Fin 0], pol = (P[0 := [Fin 1]])[1 := [Fin 1]],
      delta = pymax (pymax (Fin 0) (fabs (fsub (Fin q) (Fin a)))) (fabs (fsub (Fin 0) (Fin b))),
      count = n + 1\<rparr>"
proof -
  note Q0 = chain2_Q0 [OF D G A Bq]
  note Q1 = chain2_Q1 [OF D G C Bq]
  have NSc: "NS (chain2 f0 f1) = 2" by (simp add: chain2_def)
  show ?thesis
    unfolding vi_sweep_def vi_sweep_order_def NSc upt2
    using B S
    by (simp add: vi_body_def Let_def Q0 Q1 tmax_single scale_def softmax_single f32_round_0)
qed

lemma chain2_sweep_rev:
  assumes D: "dot f0 w = Fin r0" "dot f1 w = Fin r"
    and G: "f32_round gamma = Fin g" and B: "f32_round beta = Fin bt"
    and A: "f32_round (g * a) = Fin ga" "f32_round (r0 + ga) = Fin v0"
    and Bq: "f32_round (g * b) = Fin gb" "f32_round (r + gb) = Fin q"
    and Z: "f32_round (r + 0) = Fin q0"
    and S: "f32_round (bt * q0) = Fin bq"
  shows "vi_sweep_order [1, 0] (chain2 f0 f1) w gamma beta
           \<lparr>V = [Fin a, Fin b], pol = P, delta = d, count = n\<rparr> =
     \<lparr>V = [Fin q0, Fin 0], pol = (P[1 := [Fin 1]])[0 := [Fin 1]],
      delta = pymax (pymax (Fin 0) (fabs (fsub (Fin 0) (Fin b)))) (fabs (fsub (Fin q0) (Fin a))),
      count = n + 1\<rparr>"
proof -
  have g0: "f32_round (g * 0) = Fin 0" by (simp add: f32_round_0)
  note Q1 = chain2_Q1 [OF D G A Bq]
  note Q0 = chain2_Q0 [OF D G A g0 Z]
  show ?thesis
    unfolding vi_sweep_order_def
    using B S
    by (simp add: vi_body_def Let_def Q0 Q1 tmax_single scale_def softmax_single f32_round_0)
qed

lemma f32_mul_bound:
  assumes "\<bar>x\<bar> \<le> 2 ^ a" "\<bar>y\<bar> \<le> 2 ^ b" "a + b \<le> 127"
  shows "\<exists>z. f32_round (x * y) = Fin z \<and> \<bar>z\<bar> \<le> 2 ^ (a + b) \<and> f32_round z = Fin z"
proof -
  have "\<bar>x * y\<bar> = \<bar>x\<bar> * \<bar>y\<bar>" by (rule abs_mult)
  also have "\<dots> \<le> 2 ^ a * 2 ^ b" using assms(1,2) by (intro mult_mono) simp_all
  finally have "\<bar>x * y\<bar> \<le> 2 ^ (a + b)" by (simp add: power_add)
  then show ?thesis using assms(3) by (rule f32_round_bound)
qed

lemma f32_add_bound:
  assumes "\<bar>x\<bar> \<le> 2 ^ a" "\<bar>y\<bar> \<le> 2 ^ a" "a < 127"
  shows "\<exists>z. f32_round (x + y) = Fin z \<and> \<bar>z\<bar> \<le> 2 ^ Suc a \<and> f32_round z = Fin z"
proof -
  have "\<bar>x + y\<bar> \<le> \<bar>x\<bar> + \<bar>y\<bar>" by (rule abs_triangle_ineq)
  also have "\<dots> \<le> 2 ^ a + 2 ^ a" using assms(1,2) by (intro add_mono)
  finally have "\<bar>x + y\<bar> \<le> 2 ^ Suc a" by simp
  moreover have "Suc a \<le> 127" using assms(3) by simp
  ultimately show ?thesis by (rule f32_round_bound)
qed

lemma pow2_le: "\<bar>x\<bar> \<le> 2 ^ a \<Longrightarrow> a \<le> b \<Longrightarrow> \<bar>x :: real\<bar> \<le> 2 ^ b"
proof -
  assume a: "\<bar>x\<bar> \<le> 2 ^ a" "a \<le> b"
  have "(2::real) ^ a \<le> 2 ^ b" using a(2) by (intro power_increasing) simp_all
  with a(1) show ?thesis by (rule order_trans)
qed

lemma chain2_run:
  assumes D: "dot f0 w = Fin r0" "dot f1 w = Fin r"
    and bnd: "\<bar>r0\<bar> \<le> 2 ^ 100" "\<bar>r\<bar> \<le> 2 ^ 100" "\<bar>gamma\<bar> \<le> 1" "\<bar>beta\<bar> \<le> 2 ^ 20"
    and q: "fadd (Fin r) (fmul (f32_round gamma) (Fin r)) = Fin q"
    and d: "fsub (Fin r) (Fin q) = Fin d2"
    and thr: "f32_round thr = Fin t" "0 < t" "t \<le> max \<bar>q\<bar> \<bar>r\<bar>"
  shows "vi_sweep (chain2 f0 f1) w gamma beta (vi_init (chain2 f0 f1) w thr) =
           \<lparr>V = [Fin q, Fin 0], pol = [[Fin 1], [Fin 1]],
            delta = Fin (max \<bar>q\<bar> \<bar>r\<bar>), count = 1\<rparr>
       \<and> vi_while (chain2 f0 f1) w thr gamma beta (vi_init (chain2 f0 f1) w thr) =
           Some \<lparr>V = [Fin r, Fin 0], pol = [[Fin 1], [Fin 1]],
                 delta = (if t \<le> \<bar>d2\<bar> then Fin 0 else Fin \<bar>d2\<bar>),
                 count = (if t \<le> \<bar>d2\<bar> then 3 else 2)\<rparr>
       \<and> value_iteration (chain2 f0 f1) w thr gamma beta =
           Some ([Fin r, Fin 0], [[Fin 1], [Fin 1]])"
proof -
  define M where "M = chain2 f0 f1"
  have "\<bar>gamma\<bar> \<le> 2 ^ 0" using bnd(3) by simp
  from f32_round_bound [OF this] obtain g where
    G: "f32_round gamma = Fin g" and gb: "\<bar>g\<bar> \<le> 2 ^ 0" by auto
  from f32_round_bound [OF bnd(4)] obtain bt where
    B: "f32_round beta = Fin bt" and bb: "\<bar>bt\<bar> \<le> 2 ^ 20" by auto
  have rr: "f32_round r = Fin r" and rr0: "f32_round r0 = Fin r0"
    using D by (auto dest: dot_repr)
  from f32_mul_bound [OF gb bnd(2)] obtain gr where
    gr: "f32_round (g * r) = Fin gr" and grb: "\<bar>gr\<bar> \<le> 2 ^ 100" by auto
  have q1: "f32_round (r + gr) = Fin q" using q G gr by simp
  from f32_add_bound [OF bnd(2) grb] q1 have qb: "\<bar>q\<bar> \<le> 2 ^ 101" by auto
  have qq: "f32_round q = Fin q" using q1 by (rule f32_round_idem)
  have g0: "f32_round (g * 0) = Fin 0" by (simp add: f32_round_0)
  have r00: "f32_round (r0 + 0) = Fin r0" using rr0 by simp
  have r0': "f32_round (r + 0) = Fin r" using rr by simp
  from f32_mul_bound [OF gb qb] obtain gq where
    gq: "f32_round (g * q) = Fin gq" and gqb: "\<bar>gq\<bar> \<le> 2 ^ 101" by auto
  from f32_add_bound [OF pow2_le [OF bnd(1), of 101] gqb] obtain v0q where
    v0q: "f32_round (r0 + gq) = Fin v0q" by auto
  from f32_add_bound [OF bnd(1) grb] obtain v0r where
    v0r: "f32_round (r0 + gr) = Fin v0r" by auto
  from f32_mul_bound [OF bb qb] obtain bq where
    bq: "f32_round (bt * q) = Fin bq" by auto
  from f32_mul_bound [OF bb bnd(2)] obtain br where
    br: "f32_round (bt * r) = Fin br" by auto
  have nr: "f32_round (- r) = Fin (- r)" using rr by (rule f32_repr_neg)
  have dd: "f32_round (r - q) = Fin d2" using d by (simp add: fsub_def)
  define st0 where "st0 = vi_init M w thr"
  define st1 where "st1 = \<lparr>V = [Fin q, Fin 0], pol = [[Fin 1], [Fin 1]],
    delta = Fin (max \<bar>q\<bar> \<bar>r\<bar>), count = 1\<rparr>"
  define st2 where "st2 = \<lparr>V = [Fin r, Fin 0], pol = [[Fin 1], [Fin 1]],
    delta = Fin \<bar>d2\<bar>, count = 2\<rparr>"
  define st3 where "st3 = \<lparr>V = [Fin r, Fin 0], pol = [[Fin 1], [Fin 1]],
    delta = Fin 0, count = 3\<rparr>"
  have s1: "vi_sweep M w gamma beta st0 = st1"
    unfolding M_def st0_def st1_def chain2_init D
    by (subst chain2_sweep [OF D G B g0 r00 gr q1 gq v0q bq])
      (simp add: fsub_def qq nr pymax_def)
  have s2: "vi_sweep M w gamma beta st1 = st2"
    unfolding M_def st1_def st2_def
    by (subst chain2_sweep [OF D G B gq v0q g0 r0' gr v0r br])
      (simp add: fsub_def dd f32_round_0 pymax_def)
  have s3: "vi_sweep M w gamma beta st2 = st3"
    unfolding M_def st2_def st3_def
    by (subst chain2_sweep [OF D G B gr v0r g0 r0' gr v0r br])
      (simp add: fsub_def f32_round_0 pymax_def)
  have d0: "fge (delta st0) (f32_round thr)"
    by (simp add: st0_def vi_init_def fge_refl f32_round_not_NaN)
  have d1: "fge (delta st1) (f32_round thr)"
    using thr by (simp add: st1_def fge_Fin)
  have d3: "\<not> fge (delta st3) (f32_round thr)"
    using thr by (simp add: st3_def fge_Fin)
  have w02: "vi_while M w thr gamma beta st0 = vi_while M w thr gamma beta st2"
    by (simp add: vi_while_step [OF d0] s1 vi_while_step [OF d1] s2)
  have w: "vi_while M w thr gamma beta st0 = Some (if t \<le> \<bar>d2\<bar> then st3 else st2)"
  proof (cases "t \<le> \<bar>d2\<bar>")
    case True
    then have "fge (delta st2) (f32_round thr)" using thr by (simp add: st2_def fge_Fin)
    then have "vi_while M w thr gamma beta st2 = vi_while M w thr gamma beta st3"
      by (simp add: vi_while_step s3)
    with True w02 show ?thesis by (simp add: vi_while_exit [OF d3])
  next
    case False
    then have "\<not> fge (delta st2) (f32_round thr)" using thr by (simp add: st2_def fge_Fin)
    with False w02 show ?thesis by (simp add: vi_while_exit)
  qed
  have v: "value_iteration M w thr gamma beta = Some ([Fin r, Fin 0], [[Fin 1], [Fin 1]])"
    using w unfolding value_iteration_def value_iteration_order_def vi_while_def st0_def
    by (simp add: st2_def st3_def)
  show ?thesis
    using s1 w v unfolding M_def st0_def st1_def st2_def st3_def by simp
qed

section \<open>Some 32-bit floats\<close>

lemma f32_round_binade:
  assumes "2 powr of_int e \<le> \<bar>x\<bar>" "\<bar>x\<bar> < 2 powr of_int (e + 1)" "- 126 \<le> e"
    and "round_even (x / 2 powr of_int (e - 23)) = n"
    and "\<bar>of_int n * 2 powr of_int (e - 23)\<bar> < (2::real) ^ 128"
  shows "f32_round x = Fin (of_int n * 2 powr of_int (e - 23))"
proof -
  have "max (- 126) e - int 24 + 1 = e - 23" using assms(3) by simp
  then have "fp_round 24 (- 126) x = of_int n * 2 powr of_int (e - 23)"
    using fp_round_binade [OF assms(1,2), of 24 "- 126"] assms(4) by simp
  with assms(5) show ?thesis by (simp add: f32_round_def)
qed

lemma powr2_neg: "(2::real) powr - numeral n = 1 / 2 ^ numeral n"
  by (simp add: powr_minus inverse_eq_divide)

lemma f32_round_hundredth: "f32_round (1 / 100) = Fin (5368709 / 536870912)"
proof -
  have "f32_round (1 / 100) = Fin (of_int 10737418 * 2 powr of_int (- 7 - 23))"
    by (rule f32_round_binade) (simp_all add: round_even_def powr2_neg)
  then show ?thesis by (simp add: powr2_neg)
qed

lemma f32_round_nine_tenths: "f32_round (9 / 10) = Fin (7549747 / 8388608)"
proof -
  have "f32_round (9 / 10) = Fin (of_int 15099494 * 2 powr of_int (- 1 - 23))"
    by (rule f32_round_binade) (simp_all add: round_even_def powr2_neg)
  then show ?thesis by (simp add: powr2_neg)
qed

lemma f32_round_10: "f32_round 10 = Fin 10"
  using f32_round_int [of 10] by simp

lemma f32_round_half: "f32_round (1 / 2) = Fin (1 / 2)"
  using f32_round_dyadic [of 1 1] by simp

lemma dot_0_1: "dot [Fin 0] [Fin 1] = Fin 0"
  by (simp add: dot_def f32_round_0)

lemma dot_1_1: "dot [Fin 1] [Fin 1] = Fin 1"
  by (simp add: dot_def f32_round_1)

text \<open>
  Claim C2, as the program has it. On the chain of two states let \<open>r = phi(terminal) \<cdot> w\<close>, with
  rewards of magnitude at most \<open>2\<^sup>1\<^sup>0\<^sup>0\<close>, \<open>|gamma| \<le> 1\<close> and \<open>|beta| \<le> 2\<^sup>2\<^sup>0\<close> (no operation
  overflows), a threshold whose 32-bit float \<open>t\<close> is positive, and a first sweep whose change
  reaches \<open>t\<close>. The first sweep of \<^verbatim>\<open>value_iteration\<close> leaves \<open>V(0) = q\<close>, the float
  \<open>r + gamma * r\<close> (the terminal state still holds its initial value \<open>r\<close> when state 0 is
  updated), and resets the terminal state to 0, so the loop goes on: it exits after the
  second sweep when the change \<open>|r - q|\<close> of that sweep is below \<open>t\<close> and after the third
  otherwise, and returns \<open>V = [r, 0]\<close> with the policy \<open>[[1], [1]]\<close>.
\<close>

theorem chain2_value_iteration:
  assumes "dot f0 w = Fin r0" "dot f1 w = Fin r"
    and "\<bar>r0\<bar> \<le> 2 ^ 100" "\<bar>r\<bar> \<le> 2 ^ 100" "\<bar>gamma\<bar> \<le> 1" "\<bar>beta\<bar> \<le> 2 ^ 20"
    and "fadd (Fin r) (fmul (f32_round gamma) (Fin r)) = Fin q"
    and "fsub (Fin r) (Fin q) = Fin d2"
    and "f32_round thr = Fin t" "0 < t" "t \<le> max \<bar>q\<bar> \<bar>r\<bar>"
  shows "vi_sweep (chain2 f0 f1) w gamma beta (vi_init (chain2 f0 f1) w thr) =
           \<lparr>V = [Fin q, Fin 0], pol = [[Fin 1], [Fin 1]],
            delta = Fin (max \<bar>q\<bar> \<bar>r\<bar>), count = 1\<rparr>
       \<and> vi_while (chain2 f0 f1) w thr gamma beta (vi_init (chain2 f0 f1) w thr) =
           Some \<lparr>V = [Fin r, Fin 0], pol = [[Fin 1], [Fin 1]],
                 delta = (if t \<le> \<bar>d2\<bar> then Fin 0 else Fin \<bar>d2\<bar>),
                 count = (if t \<le> \<bar>d2\<bar> then 3 else 2)\<rparr>
       \<and> value_iteration (chain2 f0 f1) w thr gamma beta =
           Some ([Fin r, Fin 0], [[Fin 1], [Fin 1]])"
  using assms by (rule chain2_run)

lemma chain2_default_facts:
  "fadd (Fin 1) (fmul (f32_round (9 / 10)) (Fin 1)) = Fin (15938355 / 8388608)"
  "fsub (Fin 1) (Fin (15938355 / 8388608)) = Fin (- (7549747 / 8388608))"
proof -
  have a: "f32_round (7549747 / 8388608) = Fin (7549747 / 8388608)"
    using f32_round_dyadic [of 7549747 23] by simp
  have b: "f32_round (15938355 / 8388608) = Fin (15938355 / 8388608)"
    using f32_round_dyadic [of 15938355 23] by simp
  have c: "f32_round (- (7549747 / 8388608)) = Fin (- (7549747 / 8388608))"
    using a by (rule f32_repr_neg)
  show "fadd (Fin 1) (fmul (f32_round (9 / 10)) (Fin 1)) = Fin (15938355 / 8388608)"
    by (simp add: f32_round_nine_tenths a b)
  show "fsub (Fin 1) (Fin (15938355 / 8388608)) = Fin (- (7549747 / 8388608))"
    by (simp add: fsub_def c)
qed

theorem chain2_value_iteration_witness:
  "dot [Fin 0] [Fin 1] = Fin 0 \<and> dot [Fin 1] [Fin 1] = Fin 1
   \<and> \<bar>0 :: real\<bar> \<le> 2 ^ 100 \<and> \<bar>1 :: real\<bar> \<le> 2 ^ 100 \<and> \<bar>9 / 10 :: real\<bar> \<le> 1
   \<and> \<bar>10 :: real\<bar> \<le> 2 ^ 20
   \<and> fadd (Fin 1) (fmul (f32_round (9 / 10)) (Fin 1)) = Fin (15938355 / 8388608)
   \<and> fsub (Fin 1) (Fin (15938355 / 8388608)) = Fin (- (7549747 / 8388608))
   \<and> f32_round (1 / 100) = Fin (5368709 / 536870912)
   \<and> (0 :: real) < 5368709 / 536870912
   \<and> (5368709 / 536870912 :: real) \<le> max \<bar>15938355 / 8388608\<bar> \<bar>1\<bar>
   \<and> value_iteration (chain2 [Fin 0] [Fin 1]) [Fin 1] (1 / 100) (9 / 10) 10 =
       Some ([Fin 1, Fin 0], [[Fin 1], [Fin 1]])"
proof -
  have h: "\<bar>0 :: real\<bar> \<le> 2 ^ 100" "\<bar>1 :: real\<bar> \<le> 2 ^ 100" "\<bar>9 / 10 :: real\<bar> \<le> 1"
    "\<bar>10 :: real\<bar> \<le> 2 ^ 20" "(0 :: real) < 5368709 / 536870912"
    "(5368709 / 536870912 :: real) \<le> max \<bar>15938355 / 8388608\<bar> \<bar>1\<bar>"
    by simp_all
  note th = chain2_value_iteration [OF dot_0_1 dot_1_1 h(1-4) chain2_default_facts
      f32_round_hundredth h(5,6)]
  from th have "value_iteration (chain2 [Fin 0] [Fin 1]) [Fin 1] (1 / 100) (9 / 10) 10 =
       Some ([Fin 1, Fin 0], [[Fin 1], [Fin 1]])"
    by (rule conjunct2 [THEN conjunct2])
  with h dot_0_1 dot_1_1 chain2_default_facts f32_round_hundredth show ?thesis
    by (intro conjI)
qed

text \<open>
  Claim C2 as it is stated fails. With \<open>r = 1\<close> and the defaults \<open>gamma = 0.9\<close>,
  \<open>threshold = 0.01\<close>, \<open>beta = 10\<close>, the first sweep ends with \<open>V(0) = 15938355 / 2\<^sup>2\<^sup>3\<close>, the
  float next to \<open>1.9\<close>, and a change of the same size, which is not below the threshold; the
  loop exits after its third sweep.
\<close>

theorem chain2_one_sweep_counterexample:
  "vi_sweep (chain2 [Fin 0] [Fin 1]) [Fin 1] (9 / 10) 10
     (vi_init (chain2 [Fin 0] [Fin 1]) [Fin 1] (1 / 100)) =
     \<lparr>V = [Fin (15938355 / 8388608), Fin 0], pol = [[Fin 1], [Fin 1]],
      delta = Fin (15938355 / 8388608), count = 1\<rparr>
   \<and> fge (Fin (15938355 / 8388608)) (f32_round (1 / 100))
   \<and> vi_while (chain2 [Fin 0] [Fin 1]) [Fin 1] (1 / 100) (9 / 10) 10
       (vi_init (chain2 [Fin 0] [Fin 1]) [Fin 1] (1 / 100)) =
     Some \<lparr>V = [Fin 1, Fin 0], pol = [[Fin 1], [Fin 1]], delta = Fin 0, count = 3\<rparr>"
proof -
  have h: "\<bar>0 :: real\<bar> \<le> 2 ^ 100" "\<bar>1 :: real\<bar> \<le> 2 ^ 100" "\<bar>9 / 10 :: real\<bar> \<le> 1"
    "\<bar>10 :: real\<bar> \<le> 2 ^ 20" "(0 :: real) < 5368709 / 536870912"
    "(5368709 / 536870912 :: real) \<le> max \<bar>15938355 / 8388608\<bar> \<bar>1\<bar>"
    by simp_all
  note th = chain2_run [OF dot_0_1 dot_1_1 h(1-4) chain2_default_facts
      f32_round_hundredth h(5,6)]
  have g: "fge (Fin (15938355 / 8388608)) (f32_round (1 / 100))"
    by (simp add: f32_round_hundredth fge_Fin)
  from th g show ?thesis by simp
qed

text \<open>
  Claim C1, as the program has it. A sweep of \<^verbatim>\<open>value_iteration\<close>, and of the
  successor-feature iteration of \<^verbatim>\<open>sfgpi_train\<close>, writes \<^verbatim>\<open>V\<close> (\<^verbatim>\<open>psi[widx]\<close>) in place in
  the order \<open>s = 0, \<dots>, NS - 1\<close>: the update of state \<open>s\<close> reads the values that this sweep
  has already written for the states before \<open>s\<close>, and the values of the previous sweep for
  \<open>s\<close> and the states after it. The sweep is no update from a snapshot, and its result
  depends on the order of the states.
\<close>

theorem sweep_in_place:
  assumes "length (V st) = NS m" "length (pol st) = NS m"
    and "widx < length (psi sf)" "length (psi sf ! widx) = NS m"
    and "s < NS m"
  shows "V (vi_sweep m w gamma beta st) ! s =
           tmax (vi_Q m w gamma (take s (V (vi_sweep m w gamma beta st)) @ drop s (V st)) s)
       \<and> pol (vi_sweep m w gamma beta st) ! s =
           softmax (scale beta
             (vi_Q m w gamma (take s (V (vi_sweep m w gamma beta st)) @ drop s (V st)) s))
       \<and> psi (sf_sweep m gamma p widx sf) ! widx ! s =
           sf_update m gamma p
             (take s (psi (sf_sweep m gamma p widx sf) ! widx) @ drop s (psi sf ! widx)) s"
  using vi_sweep_nth [OF assms(1,2,5)] sf_sweep_nth [OF assms(3,4,5)] by simp

theorem sweep_in_place_witness:
  "length (V \<lparr>V = [Fin 0, Fin 1], pol = [[Fin 0], [Fin 0]], delta = Fin (1 / 2), count = 0\<rparr>)
     = NS (chain2 [Fin 0] [Fin 1])
   \<and> length (pol \<lparr>V = [Fin 0, Fin 1], pol = [[Fin 0], [Fin 0]], delta = Fin (1 / 2), count = 0\<rparr>)
     = NS (chain2 [Fin 0] [Fin 1])
   \<and> 0 < length (psi \<lparr>psi = [[[Fin 0], [Fin 1]]], sf_delta = Fin (1 / 2), sf_count = 0\<rparr>)
   \<and> length (psi \<lparr>psi = [[[Fin 0], [Fin 1]]], sf_delta = Fin (1 / 2), sf_count = 0\<rparr> ! 0)
     = NS (chain2 [Fin 0] [Fin 1])
   \<and> (1::nat) < NS (chain2 [Fin 0] [Fin 1])
   \<and> V (vi_sweep (chain2 [Fin 0] [Fin 1]) [Fin 1] (1 / 2) 10
          \<lparr>V = [Fin 0, Fin 1], pol = [[Fin 0], [Fin 0]], delta = Fin (1 / 2), count = 0\<rparr>) ! 1 =
       tmax (vi_Q (chain2 [Fin 0] [Fin 1]) [Fin 1] (1 / 2)
         (take 1 (V (vi_sweep (chain2 [Fin 0] [Fin 1]) [Fin 1] (1 / 2) 10
            \<lparr>V = [Fin 0, Fin 1], pol = [[Fin 0], [Fin 0]], delta = Fin (1 / 2), count = 0\<rparr>))
          @ drop 1 [Fin 0, Fin 1]) 1)"
  using sweep_in_place [where st = "\<lparr>V = [Fin 0, Fin 1], pol = [[Fin 0], [Fin 0]],
        delta = Fin (1 / 2), count = 0\<rparr>"
      and m = "chain2 [Fin 0] [Fin 1]" and widx = 0
      and sf = "\<lparr>psi = [[[Fin 0], [Fin 1]]], sf_delta = Fin (1 / 2), sf_count = 0\<rparr>" and s = 1
      and w = "[Fin 1]" and gamma = "1 / 2" and beta = 10 and p = "[[Fin 1], [Fin 1]]"]
  by (simp add: chain2_def)

text \<open>
  Claim C1 as it is stated fails: the order of the per-state updates changes what
  \<^verbatim>\<open>value_iteration\<close> returns. On the chain of two states with \<open>r = 1/256\<close>, \<open>gamma = 1/2\<close> and
  the default threshold \<open>0.01\<close>, the program (order 0, 1) returns \<open>V(0) = r + gamma * r\<close>, and the
  same updates in the order 1, 0 return \<open>V(0) = r\<close>; both exit after one sweep. All the values
  are 32-bit floats, and no operation rounds.
\<close>

theorem sweep_order_counterexample:
  "value_iteration (chain2 [Fin 0] [Fin (1 / 256)]) [Fin 1] (1 / 100) (1 / 2) 10 =
     Some ([Fin (3 / 512), Fin 0], [[Fin 1], [Fin 1]])
   \<and> value_iteration_order [1, 0] (chain2 [Fin 0] [Fin (1 / 256)]) [Fin 1] (1 / 100) (1 / 2) 10 =
     Some ([Fin (1 / 256), Fin 0], [[Fin 1], [Fin 1]])"
proof -
  define M where "M = chain2 [Fin 0] [Fin (1 / 256)]"
  define st0 where "st0 = vi_init M [Fin 1] (1 / 100)"
  define sta where "sta = \<lparr>V = [Fin (3 / 512), Fin 0], pol = [[Fin 1], [Fin 1]],
    delta = Fin (3 / 512), count = 1\<rparr>"
  define stb where "stb = \<lparr>V = [Fin (1 / 256), Fin 0], pol = [[Fin 1], [Fin 1]],
    delta = Fin (1 / 256), count = 1\<rparr>"
  have c: "f32_round (1 / 256) = Fin (1 / 256)" "f32_round (1 / 512) = Fin (1 / 512)"
    "f32_round (3 / 512) = Fin (3 / 512)" "f32_round (3 / 1024) = Fin (3 / 1024)"
    "f32_round (15 / 256) = Fin (15 / 256)" "f32_round (5 / 128) = Fin (5 / 128)"
    using f32_round_dyadic [of 1 8] f32_round_dyadic [of 1 9] f32_round_dyadic [of 3 9]
      f32_round_dyadic [of 3 10] f32_round_dyadic [of 15 8] f32_round_dyadic [of 5 7]
    by simp_all
  have n: "f32_round (- (1 / 256)) = Fin (- (1 / 256))"
    using c(1) by (rule f32_repr_neg)
  have D: "dot [Fin 0] [Fin 1] = Fin 0" "dot [Fin (1 / 256)] [Fin 1] = Fin (1 / 256)"
    by (simp_all add: dot_def f32_round_0 c)
  have g0: "f32_round (1 / 2 * 0) = Fin 0" "f32_round (0 + 0) = Fin 0"
    by (simp_all add: f32_round_0)
  have gr: "f32_round (1 / 2 * (1 / 256)) = Fin (1 / 512)"
    "f32_round (1 / 256 + 1 / 512) = Fin (3 / 512)"
    "f32_round (1 / 2 * (3 / 512)) = Fin (3 / 1024)"
    "f32_round (0 + 3 / 1024) = Fin (3 / 1024)"
    "f32_round (10 * (3 / 512)) = Fin (15 / 256)"
    "f32_round (1 / 256 + 0) = Fin (1 / 256)"
    "f32_round (10 * (1 / 256)) = Fin (5 / 128)"
    by (simp_all add: c)
  have d0: "fge (delta st0) (f32_round (1 / 100))"
    by (simp add: st0_def vi_init_def fge_refl f32_round_not_NaN)
  have sa: "vi_sweep M [Fin 1] (1 / 2) 10 st0 = sta"
    unfolding M_def st0_def sta_def chain2_init D
    by (subst chain2_sweep [OF D f32_round_half f32_round_10 g0 gr(1,2,3,4,5)])
      (simp add: fsub_def c n pymax_def)
  have sb: "vi_sweep_order [1, 0] M [Fin 1] (1 / 2) 10 st0 = stb"
    unfolding M_def st0_def stb_def chain2_init D
    by (subst chain2_sweep_rev [OF D f32_round_half f32_round_10 g0 gr(1,2,6,7)])
      (simp add: fsub_def c n pymax_def)
  have da: "\<not> fge (delta sta) (f32_round (1 / 100))"
    by (simp add: sta_def f32_round_hundredth fge_Fin)
  have db: "\<not> fge (delta stb) (f32_round (1 / 100))"
    by (simp add: stb_def f32_round_hundredth fge_Fin)
  have a: "vi_while M [Fin 1] (1 / 100) (1 / 2) 10 st0 = Some sta"
    by (simp add: vi_while_step [OF d0] sa vi_while_exit [OF da])
  have b: "vi_while_order [1, 0] M [Fin 1] (1 / 100) (1 / 2) 10 st0 = Some stb"
    unfolding vi_while_order_step [OF d0] sb by (rule vi_while_order_exit [OF db])
  show ?thesis
    using a b
    unfolding value_iteration_def value_iteration_order_def vi_while_def M_def st0_def
      sta_def stb_def
    by simp
qed

section \<open>What value iteration computes\<close>

lemma wf_T_row:
  assumes "wf_mtrl m" "s < NS m"
  shows "length (T m ! s) = NA m" and "\<And>a. a < NA m \<Longrightarrow> length (T m ! s ! a) = NS m"
proof -
  have "T m ! s \<in> set (T m)" using assms by (simp add: wf_mtrl_def)
  with assms(1) show 1: "length (T m ! s) = NA m" by (simp add: wf_mtrl_def)
  fix a assume "a < NA m"
  with 1 have "T m ! s ! a \<in> set (T m ! s)" by simp
  with assms(1) \<open>T m ! s \<in> set (T m)\<close> show "length (T m ! s ! a) = NS m"
    by (simp add: wf_mtrl_def)
qed

lemma vi_vals:
  assumes "length (phi m) = NS m" "length Vc = NS m"
  shows "vadd (matvec (phi m) w) (scale gamma Vc) =
           map (\<lambda>s'. fadd (dot (phi m ! s') w) (fmul (f32_round gamma) (Vc ! s'))) [0..<NS m]"
  using assms by (intro nth_equalityI) (simp_all add: vadd_def matvec_def scale_def)

lemma vi_Q_nth:
  assumes "wf_mtrl m" "length Vc = NS m" "s < NS m" "a < NA m"
  shows "length (vi_Q m w gamma Vc s) = NA m"
    and "vi_Q m w gamma Vc s ! a =
           dot (T m ! s ! a)
             (map (\<lambda>s'. fadd (dot (phi m ! s') w) (fmul (f32_round gamma) (Vc ! s'))) [0..<NS m])"
proof -
  have lphi: "length (phi m) = NS m" using assms(1) by (simp add: wf_mtrl_def)
  show "length (vi_Q m w gamma Vc s) = NA m"
    using wf_T_row(1) [OF assms(1,3)] by (simp add: vi_Q_def matvec_def)
  show "vi_Q m w gamma Vc s ! a =
           dot (T m ! s ! a)
             (map (\<lambda>s'. fadd (dot (phi m ! s') w) (fmul (f32_round gamma) (Vc ! s'))) [0..<NS m])"
    unfolding vi_Q_def vi_vals [OF lphi assms(2)]
    using wf_T_row(1) [OF assms(1,3)] assms(4) by (simp add: matvec_def)
qed

lemma vi_init_V_fold:
  "k \<le> n \<Longrightarrow>
   length (fold (\<lambda>i Vc. if is_terminal m ! i \<noteq> 0 then Vc[i := dot (phi m ! i) w] else Vc)
      [0..<k] (zeros n)) = n
   \<and> (\<forall>s<n. fold (\<lambda>i Vc. if is_terminal m ! i \<noteq> 0 then Vc[i := dot (phi m ! i) w] else Vc)
      [0..<k] (zeros n) ! s =
      (if s < k \<and> is_terminal m ! s \<noteq> 0 then dot (phi m ! s) w else Fin 0))"
  by (induction k) (auto simp: zeros_def nth_list_update less_Suc_eq)

lemma vi_init_V_nth:
  "length (vi_init_V m w) = NS m"
  "s < NS m \<Longrightarrow> vi_init_V m w ! s = (if is_terminal m ! s \<noteq> 0 then dot (phi m ! s) w else Fin 0)"
  using vi_init_V_fold [of "NS m" "NS m" m w] by (simp_all add: vi_init_V_def)

lemma vi_iter_lengths:
  "length (V ((vi_sweep m w gamma beta ^^ n) (vi_init m w thr))) = NS m
   \<and> length (pol ((vi_sweep m w gamma beta ^^ n) (vi_init m w thr))) = NS m"
  by (induction n) (simp_all add: vi_init_def vi_init_V_nth(1) zeros2_def vi_sweep_lengths)

lemma vi_init_enters: "fge (delta (vi_init m w thr)) (f32_round thr)"
  by (simp add: vi_init_def fge_refl f32_round_not_NaN)

lemma value_iteration_iff:
  "value_iteration m w thr gamma beta = Some (Vr, Pr) \<longleftrightarrow>
     (\<exists>n>0. Vr = V ((vi_sweep m w gamma beta ^^ n) (vi_init m w thr))
        \<and> Pr = pol ((vi_sweep m w gamma beta ^^ n) (vi_init m w thr))
        \<and> \<not> fge (delta ((vi_sweep m w gamma beta ^^ n) (vi_init m w thr))) (f32_round thr)
        \<and> (\<forall>k. 0 < k \<and> k < n \<longrightarrow>
              fge (delta ((vi_sweep m w gamma beta ^^ k) (vi_init m w thr))) (f32_round thr)))"
  (is "?L \<longleftrightarrow> ?R")
proof
  let ?it = "\<lambda>n. (vi_sweep m w gamma beta ^^ n) (vi_init m w thr)"
  assume ?L
  then obtain st' where st': "vi_while_order [0..<NS m] m w thr gamma beta (vi_init m w thr) = Some st'"
    and r: "Vr = V st'" "Pr = pol st'"
    by (auto simp: value_iteration_def value_iteration_order_def)
  from st' obtain n where n: "st' = ?it n" "\<not> fge (delta st') (f32_round thr)"
    "\<forall>k<n. fge (delta (?it k)) (f32_round thr)"
    unfolding vi_while_order_iff vi_sweep_def by blast
  have "n \<noteq> 0"
  proof
    assume "n = 0"
    with n(1,2) show False using vi_init_enters [of m w thr] by simp
  qed
  with n r show ?R by (intro exI [of _ n]) auto
next
  let ?it = "\<lambda>n. (vi_sweep m w gamma beta ^^ n) (vi_init m w thr)"
  assume ?R
  then obtain n where n: "0 < n" "Vr = V (?it n)" "Pr = pol (?it n)"
    "\<not> fge (delta (?it n)) (f32_round thr)"
    "\<forall>k. 0 < k \<and> k < n \<longrightarrow> fge (delta (?it k)) (f32_round thr)" by blast
  have "fge (delta (?it k)) (f32_round thr)" if "k < n" for k
    using n(5) that vi_init_enters [of m w thr] by (cases "k = 0") simp_all
  then have "vi_while_order [0..<NS m] m w thr gamma beta (vi_init m w thr) = Some (?it n)"
    using n(4) unfolding vi_sweep_def by (intro vi_while_order_iter) auto
  then show ?L
    using n(2,3) by (simp add: value_iteration_def value_iteration_order_def)
qed

lemma pymax_fold_fin:
  assumes "\<forall>s<k. \<exists>c. f s = Fin c"
  shows "fold (\<lambda>s d. pymax d (f s)) [0..<k] (Fin 0) =
           Fin (Max (insert 0 ((\<lambda>s. fin (f s)) ` {..<k})))"
  using assms
proof (induction k)
  case 0
  then show ?case by simp
next
  case (Suc k)
  then have ih: "fold (\<lambda>s d. pymax d (f s)) [0..<k] (Fin 0) =
           Fin (Max (insert 0 ((\<lambda>s. fin (f s)) ` {..<k})))" by simp
  from Suc.prems obtain c where c: "f k = Fin c" by auto
  let ?S = "(\<lambda>s. fin (f s)) ` {..<k}"
  have "Max (insert 0 ((\<lambda>s. fin (f s)) ` {..<Suc k})) = Max (insert c (insert 0 ?S))"
    by (simp add: lessThan_Suc c insert_commute)
  also have "\<dots> = max c (Max (insert 0 ?S))"
    by (rule Max_insert) simp_all
  finally show ?case
    by (simp add: ih c pymax_Fin max.commute)
qed

lemma chain2_wf: "length f0 = length f1 \<Longrightarrow> wf_mtrl (chain2 f0 f1)"
  by (simp add: wf_mtrl_def chain2_def)

lemma chain2_default_value:
  "value_iteration (chain2 [Fin 0] [Fin 1]) [Fin 1] (1 / 100) (9 / 10) 10 =
     Some ([Fin 1, Fin 0], [[Fin 1], [Fin 1]])"
proof -
  have h: "\<bar>0 :: real\<bar> \<le> 2 ^ 100" "\<bar>1 :: real\<bar> \<le> 2 ^ 100" "\<bar>9 / 10 :: real\<bar> \<le> 1"
    "\<bar>10 :: real\<bar> \<le> 2 ^ 20" "(0 :: real) < 5368709 / 536870912"
    "(5368709 / 536870912 :: real) \<le> max \<bar>15938355 / 8388608\<bar> \<bar>1\<bar>"
    by simp_all
  note th = chain2_run [OF dot_0_1 dot_1_1 h(1-4) chain2_default_facts
      f32_round_hundredth h(5,6)]
  then show ?thesis by (rule conjunct2 [THEN conjunct2])
qed

text \<open>
  Claim C4, as the program has it. \<^verbatim>\<open>value_iteration\<close> starts from \<open>V(s) = phi(s) \<cdot> w\<close> at the
  terminal states and 0 at the others. In every sweep and for every state \<open>s\<close>, with \<open>Vs\<close> the
  tensor \<^verbatim>\<open>V\<close> as it stands when \<open>s\<close> is updated, the row
  \<open>Q(s, \<cdot>) = T[s] @ (phi @ w + gamma * Vs)\<close> gives \<open>pi(s) = softmax (beta * Q(s, \<cdot>))\<close> and
  \<open>V(s) = max\<^sub>a Q(s, a)\<close>, all in 32-bit floats. The \<^verbatim>\<open>delta\<close> of a sweep is Python's \<^verbatim>\<open>max\<close>,
  taken from 0 along the states, of the absolute changes of \<open>V(s)\<close> over the sweep, which is
  their maximum when none of them is a NaN or an infinity. The call returns \<open>(V, pi)\<close>
  exactly when they are the state after the first sweep (at least one is made) whose
  \<^verbatim>\<open>delta\<close> is not at least the threshold converted to a 32-bit float.
\<close>

theorem value_iteration_spec:
  assumes "wf_mtrl m" "length w = NP m"
  shows
    "(\<forall>s<NS m. V (vi_init m w thr) ! s =
        (if is_terminal m ! s \<noteq> 0 then dot (phi m ! s) w else Fin 0))
     \<and> (\<forall>n s. s < NS m \<longrightarrow>
          (let st = (vi_sweep m w gamma beta ^^ n) (vi_init m w thr);
               st' = vi_sweep m w gamma beta st;
               Vs = take s (V st') @ drop s (V st);
               Q = vi_Q m w gamma Vs s
           in (\<forall>a<NA m. Q ! a =
                 dot (T m ! s ! a)
                   (map (\<lambda>s'. fadd (dot (phi m ! s') w) (fmul (f32_round gamma) (Vs ! s')))
                      [0..<NS m]))
              \<and> length Q = NA m
              \<and> pol st' ! s = softmax (map (fmul (f32_round beta)) Q)
              \<and> V st' ! s = tmax Q))
     \<and> (\<forall>n. let st = (vi_sweep m w gamma beta ^^ n) (vi_init m w thr);
               st' = vi_sweep m w gamma beta st;
               change = (\<lambda>s. fabs (fsub (V st' ! s) (V st ! s)))
           in delta st' = fold (\<lambda>s d. pymax d (change s)) [0..<NS m] (Fin 0)
              \<and> ((\<forall>s<NS m. \<exists>c. change s = Fin c) \<longrightarrow>
                   delta st' = Fin (Max (insert 0 ((\<lambda>s. fin (change s)) ` {..<NS m})))))
     \<and> (value_iteration m w thr gamma beta = Some (Vr, Pr) \<longleftrightarrow>
          (\<exists>n>0. Vr = V ((vi_sweep m w gamma beta ^^ n) (vi_init m w thr))
             \<and> Pr = pol ((vi_sweep m w gamma beta ^^ n) (vi_init m w thr))
             \<and> \<not> fge (delta ((vi_sweep m w gamma beta ^^ n) (vi_init m w thr))) (f32_round thr)
             \<and> (\<forall>k. 0 < k \<and> k < n \<longrightarrow>
                   fge (delta ((vi_sweep m w gamma beta ^^ k) (vi_init m w thr)))
                     (f32_round thr))))"
proof (intro conjI allI impI)
  fix s assume "s < NS m"
  then show "V (vi_init m w thr) ! s =
      (if is_terminal m ! s \<noteq> 0 then dot (phi m ! s) w else Fin 0)"
    by (simp add: vi_init_def vi_init_V_nth)
next
  fix n s assume s: "s < NS m"
  define st where "st = (vi_sweep m w gamma beta ^^ n) (vi_init m w thr)"
  define st' where "st' = vi_sweep m w gamma beta st"
  define Vs where "Vs = take s (V st') @ drop s (V st)"
  have l: "length (V st) = NS m" "length (pol st) = NS m"
    using vi_iter_lengths [where m = m and w = w and gamma = gamma and beta = beta and n = n
        and thr = thr]
    by (simp_all add: st_def)
  have l': "length (V st') = NS m"
    unfolding st'_def by (rule vi_sweep_lengths(1) [OF l])
  have lVs: "length Vs = NS m" using l l' s by (simp add: Vs_def)
  have 1: "\<forall>a<NA m. vi_Q m w gamma Vs s ! a =
      dot (T m ! s ! a)
        (map (\<lambda>s'. fadd (dot (phi m ! s') w) (fmul (f32_round gamma) (Vs ! s'))) [0..<NS m])"
    using vi_Q_nth(2) [OF assms(1) lVs s] by simp
  have 2: "length (vi_Q m w gamma Vs s) = NA m"
    using assms(1) s wf_T_row(1) by (simp add: vi_Q_def matvec_def)
  have 3: "pol st' ! s = softmax (map (fmul (f32_round beta)) (vi_Q m w gamma Vs s))"
    and 4: "V st' ! s = tmax (vi_Q m w gamma Vs s)"
    using vi_sweep_nth [OF l s, of w gamma beta] by (simp_all add: st'_def Vs_def scale_def)
  show "let st = (vi_sweep m w gamma beta ^^ n) (vi_init m w thr);
            st' = vi_sweep m w gamma beta st;
            Vs = take s (V st') @ drop s (V st);
            Q = vi_Q m w gamma Vs s
        in (\<forall>a<NA m. Q ! a =
              dot (T m ! s ! a)
                (map (\<lambda>s'. fadd (dot (phi m ! s') w) (fmul (f32_round gamma) (Vs ! s')))
                   [0..<NS m]))
           \<and> length Q = NA m
           \<and> pol st' ! s = softmax (map (fmul (f32_round beta)) Q)
           \<and> V st' ! s = tmax Q"
    unfolding Let_def st_def [symmetric] st'_def [symmetric] Vs_def [symmetric]
    using 1 2 3 4 by blast
next
  fix n
  define st where "st = (vi_sweep m w gamma beta ^^ n) (vi_init m w thr)"
  define st' where "st' = vi_sweep m w gamma beta st"
  let ?change = "\<lambda>s. fabs (fsub (V st' ! s) (V st ! s))"
  have l: "length (V st) = NS m"
    using vi_iter_lengths [where m = m and w = w and gamma = gamma and beta = beta and n = n
        and thr = thr]
    by (simp add: st_def)
  have d: "delta st' = fold (\<lambda>s d. pymax d (?change s)) [0..<NS m] (Fin 0)"
    unfolding st'_def by (rule vi_sweep_delta [OF l])
  have "delta st' = Fin (Max (insert 0 ((\<lambda>s. fin (?change s)) ` {..<NS m})))"
    if "\<forall>s<NS m. \<exists>c. ?change s = Fin c"
    unfolding d using that by (rule pymax_fold_fin)
  with d show "let st = (vi_sweep m w gamma beta ^^ n) (vi_init m w thr);
               st' = vi_sweep m w gamma beta st;
               change = (\<lambda>s. fabs (fsub (V st' ! s) (V st ! s)))
           in delta st' = fold (\<lambda>s d. pymax d (change s)) [0..<NS m] (Fin 0)
              \<and> ((\<forall>s<NS m. \<exists>c. change s = Fin c) \<longrightarrow>
                   delta st' = Fin (Max (insert 0 ((\<lambda>s. fin (change s)) ` {..<NS m}))))"
    unfolding Let_def st_def [symmetric] st'_def [symmetric] by blast
next
  show "value_iteration m w thr gamma beta = Some (Vr, Pr) \<longleftrightarrow>
          (\<exists>n>0. Vr = V ((vi_sweep m w gamma beta ^^ n) (vi_init m w thr))
             \<and> Pr = pol ((vi_sweep m w gamma beta ^^ n) (vi_init m w thr))
             \<and> \<not> fge (delta ((vi_sweep m w gamma beta ^^ n) (vi_init m w thr))) (f32_round thr)
             \<and> (\<forall>k. 0 < k \<and> k < n \<longrightarrow>
                   fge (delta ((vi_sweep m w gamma beta ^^ k) (vi_init m w thr)))
                     (f32_round thr)))"
    by (rule value_iteration_iff)
qed

theorem value_iteration_spec_witness:
  "wf_mtrl (chain2 [Fin 0] [Fin 1]) \<and> length [Fin 1] = NP (chain2 [Fin 0] [Fin 1])
   \<and> (\<exists>n>0. [Fin 1, Fin 0] =
          V ((vi_sweep (chain2 [Fin 0] [Fin 1]) [Fin 1] (9 / 10) 10 ^^ n)
               (vi_init (chain2 [Fin 0] [Fin 1]) [Fin 1] (1 / 100)))
        \<and> \<not> fge (delta ((vi_sweep (chain2 [Fin 0] [Fin 1]) [Fin 1] (9 / 10) 10 ^^ n)
                   (vi_init (chain2 [Fin 0] [Fin 1]) [Fin 1] (1 / 100)))) (f32_round (1 / 100)))"
proof -
  have wf: "wf_mtrl (chain2 [Fin 0] [Fin 1])" by (simp add: chain2_wf)
  have l: "length [Fin 1] = NP (chain2 [Fin 0] [Fin 1])" by (simp add: chain2_def)
  from value_iteration_spec [OF wf l, of "1 / 100" "9 / 10" 10 "[Fin 1, Fin 0]" "[[Fin 1], [Fin 1]]"]
    chain2_default_value
  have "\<exists>n>0. [Fin 1, Fin 0] =
          V ((vi_sweep (chain2 [Fin 0] [Fin 1]) [Fin 1] (9 / 10) 10 ^^ n)
               (vi_init (chain2 [Fin 0] [Fin 1]) [Fin 1] (1 / 100)))
        \<and> \<not> fge (delta ((vi_sweep (chain2 [Fin 0] [Fin 1]) [Fin 1] (9 / 10) 10 ^^ n)
                   (vi_init (chain2 [Fin 0] [Fin 1]) [Fin 1] (1 / 100)))) (f32_round (1 / 100))"
    by blast
  with wf l show ?thesis by blast
qed

lemma f32_round_tiny_threshold: "f32_round (1 / 10 ^ 50) = Fin 0"
  by (rule f32_round_tiny) simp

lemma chain2_half_iter:
  fixes n :: nat
  defines "M \<equiv> chain2 [Fin 0] [Fin 1]"
  shows "(vi_sweep M [Fin 1] (1 / 2) 10 ^^ Suc (Suc n)) (vi_init M [Fin 1] thr) =
           \<lparr>V = [Fin 1, Fin 0], pol = [[Fin 1], [Fin 1]],
            delta = Fin (if n = 0 then 1 / 2 else 0), count = Suc (Suc n)\<rparr>"
proof (induction n)
  case 0
  have c: "f32_round (3 / 2) = Fin (3 / 2)" "f32_round (3 / 4) = Fin (3 / 4)"
    "f32_round 15 = Fin 15" "f32_round (- (1 / 2)) = Fin (- (1 / 2))"
    "f32_round (- 1) = Fin (- 1)"
    using f32_round_dyadic [of 3 1] f32_round_dyadic [of 3 2] f32_round_int [of 15]
      f32_round_dyadic [of "- 1" 1] f32_round_int [of "- 1"]
    by simp_all
  have f: "f32_round (1 / 2 * 0) = Fin 0" "f32_round (0 + 0) = Fin 0"
    "f32_round (1 / 2 * 1) = Fin (1 / 2)" "f32_round (1 + 1 / 2) = Fin (3 / 2)"
    "f32_round (1 / 2 * (3 / 2)) = Fin (3 / 4)" "f32_round (0 + 3 / 4) = Fin (3 / 4)"
    "f32_round (10 * (3 / 2)) = Fin 15" "f32_round (1 + 0) = Fin 1"
    "f32_round (0 + 1 / 2) = Fin (1 / 2)" "f32_round (10 * 1) = Fin 10"
    by (simp_all add: c f32_round_0 f32_round_1 f32_round_half f32_round_10)
  have s1: "vi_sweep M [Fin 1] (1 / 2) 10 (vi_init M [Fin 1] thr) =
      \<lparr>V = [Fin (3 / 2), Fin 0], pol = [[Fin 1], [Fin 1]], delta = Fin (3 / 2), count = 0 + 1\<rparr>"
    unfolding M_def chain2_init dot_1_1
    by (subst chain2_sweep [OF dot_0_1 dot_1_1 f32_round_half f32_round_10 f(1,2,3,4,5,6,7)])
      (simp add: fsub_def c pymax_def)
  have s2: "vi_sweep M [Fin 1] (1 / 2) 10
        \<lparr>V = [Fin (3 / 2), Fin 0], pol = [[Fin 1], [Fin 1]], delta = Fin (3 / 2), count = 0 + 1\<rparr> =
      \<lparr>V = [Fin 1, Fin 0], pol = [[Fin 1], [Fin 1]], delta = Fin (1 / 2), count = Suc (Suc 0)\<rparr>"
    unfolding M_def
    by (subst chain2_sweep [OF dot_0_1 dot_1_1 f32_round_half f32_round_10 f(5,6,1,8,3,9,10)])
      (simp add: fsub_def c f32_round_0 pymax_def)
  have "(vi_sweep M [Fin 1] (1 / 2) 10 ^^ Suc (Suc 0)) (vi_init M [Fin 1] thr) =
      vi_sweep M [Fin 1] (1 / 2) 10 (vi_sweep M [Fin 1] (1 / 2) 10 (vi_init M [Fin 1] thr))"
    by simp
  then show ?case
    unfolding s1 s2 by simp
next
  case (Suc n)
  have f: "f32_round (1 / 2 * 0) = Fin 0" "f32_round (1 / 2 * 1) = Fin (1 / 2)"
    "f32_round (1 + 0) = Fin 1" "f32_round (0 + 1 / 2) = Fin (1 / 2)"
    "f32_round (10 * 1) = Fin 10"
    by (simp_all add: f32_round_0 f32_round_1 f32_round_half f32_round_10)
  have s: "vi_sweep M [Fin 1] (1 / 2) 10
        \<lparr>V = [Fin 1, Fin 0], pol = [[Fin 1], [Fin 1]], delta = d, count = k\<rparr> =
      \<lparr>V = [Fin 1, Fin 0], pol = [[Fin 1], [Fin 1]], delta = Fin 0, count = Suc k\<rparr>" for d k
    unfolding M_def
    by (subst chain2_sweep [OF dot_0_1 dot_1_1 f32_round_half f32_round_10 f(2,4,1,3,2,4,5)])
      (simp add: fsub_def f32_round_0 pymax_def)
  have "(vi_sweep M [Fin 1] (1 / 2) 10 ^^ Suc (Suc (Suc n))) (vi_init M [Fin 1] thr) =
      vi_sweep M [Fin 1] (1 / 2) 10
        ((vi_sweep M [Fin 1] (1 / 2) 10 ^^ Suc (Suc n)) (vi_init M [Fin 1] thr))"
    by simp
  also have "\<dots> = \<lparr>V = [Fin 1, Fin 0], pol = [[Fin 1], [Fin 1]], delta = Fin 0,
      count = Suc (Suc (Suc n))\<rparr>"
    unfolding Suc.IH by (rule s)
  finally show ?case by simp
qed

lemma chain2_half_delta:
  "\<exists>d\<ge>0. delta ((vi_sweep (chain2 [Fin 0] [Fin 1]) [Fin 1] (1 / 2) 10 ^^ Suc k)
               (vi_init (chain2 [Fin 0] [Fin 1]) [Fin 1] thr)) = Fin d"
proof (cases k)
  case 0
  have c: "f32_round (3 / 2) = Fin (3 / 2)" "f32_round (3 / 4) = Fin (3 / 4)"
    "f32_round 15 = Fin 15" "f32_round (- 1) = Fin (- 1)"
    using f32_round_dyadic [of 3 1] f32_round_dyadic [of 3 2] f32_round_int [of 15]
      f32_round_int [of "- 1"]
    by simp_all
  have f: "f32_round (1 / 2 * 0) = Fin 0" "f32_round (0 + 0) = Fin 0"
    "f32_round (1 / 2 * 1) = Fin (1 / 2)" "f32_round (1 + 1 / 2) = Fin (3 / 2)"
    "f32_round (1 / 2 * (3 / 2)) = Fin (3 / 4)" "f32_round (0 + 3 / 4) = Fin (3 / 4)"
    "f32_round (10 * (3 / 2)) = Fin 15"
    by (simp_all add: c f32_round_0 f32_round_half)
  have "vi_sweep (chain2 [Fin 0] [Fin 1]) [Fin 1] (1 / 2) 10
         (vi_init (chain2 [Fin 0] [Fin 1]) [Fin 1] thr) =
      \<lparr>V = [Fin (3 / 2), Fin 0], pol = [[Fin 1], [Fin 1]], delta = Fin (3 / 2), count = 1\<rparr>"
    unfolding chain2_init dot_1_1
    by (subst chain2_sweep [OF dot_0_1 dot_1_1 f32_round_half f32_round_10 f(1,2,3,4,5,6,7)])
      (simp add: fsub_def c pymax_def)
  with 0 show ?thesis by (intro exI [of _ "3 / 2"]) simp
next
  case (Suc j)
  show ?thesis
    unfolding Suc chain2_half_iter by simp
qed

text \<open>
  Claim C4 as it is stated fails: the loop does not stop when the largest change is below
  the threshold, but when it is below the 32-bit float of the threshold. On the chain of two
  states with \<open>r = 1\<close>, \<open>gamma = 1/2\<close> and the threshold \<open>10\<^sup>-\<^sup>5\<^sup>0\<close>, that float is 0. The third
  sweep changes nothing, so that its largest change 0 is below the threshold, and the loop
  goes on all the same: no sweep has a \<^verbatim>\<open>delta\<close> below 0, and the call never returns.
\<close>

theorem threshold_float_counterexample:
  "f32_round (1 / 10 ^ 50) = Fin 0
   \<and> (vi_sweep (chain2 [Fin 0] [Fin 1]) [Fin 1] (1 / 2) 10 ^^ 3)
        (vi_init (chain2 [Fin 0] [Fin 1]) [Fin 1] (1 / 10 ^ 50)) =
       \<lparr>V = [Fin 1, Fin 0], pol = [[Fin 1], [Fin 1]], delta = Fin 0, count = 3\<rparr>
   \<and> V ((vi_sweep (chain2 [Fin 0] [Fin 1]) [Fin 1] (1 / 2) 10 ^^ 2)
        (vi_init (chain2 [Fin 0] [Fin 1]) [Fin 1] (1 / 10 ^ 50))) = [Fin 1, Fin 0]
   \<and> value_iteration (chain2 [Fin 0] [Fin 1]) [Fin 1] (1 / 10 ^ 50) (1 / 2) 10 = None"
proof -
  let ?M = "chain2 [Fin 0] [Fin 1]"
  let ?thr = "1 / 10 ^ 50 :: real"
  have 3: "(vi_sweep ?M [Fin 1] (1 / 2) 10 ^^ 3) (vi_init ?M [Fin 1] ?thr) =
       \<lparr>V = [Fin 1, Fin 0], pol = [[Fin 1], [Fin 1]], delta = Fin 0, count = 3\<rparr>"
    unfolding numeral_3_eq_3 chain2_half_iter by simp
  have 2: "V ((vi_sweep ?M [Fin 1] (1 / 2) 10 ^^ 2) (vi_init ?M [Fin 1] ?thr)) = [Fin 1, Fin 0]"
    unfolding numeral_2_eq_2 chain2_half_iter by simp
  have "value_iteration ?M [Fin 1] ?thr (1 / 2) 10 \<noteq> Some r" for r
  proof
    assume a: "value_iteration ?M [Fin 1] ?thr (1 / 2) 10 = Some r"
    obtain Vr Pr where r: "r = (Vr, Pr)" by (cases r)
    from a [unfolded r value_iteration_iff] obtain n where n: "0 < n"
      "\<not> fge (delta ((vi_sweep ?M [Fin 1] (1 / 2) 10 ^^ n) (vi_init ?M [Fin 1] ?thr)))
            (f32_round ?thr)"
      by blast
    from n(1) obtain k where k: "n = Suc k" by (cases n) simp_all
    from chain2_half_delta [of k ?thr] obtain d where d: "0 \<le> d"
      "delta ((vi_sweep ?M [Fin 1] (1 / 2) 10 ^^ n) (vi_init ?M [Fin 1] ?thr)) = Fin d"
      unfolding k by blast
    from n(2) [unfolded f32_round_tiny_threshold d(2)] d(1) show False
      by (simp add: fge_Fin)
  qed
  then have "value_iteration ?M [Fin 1] ?thr (1 / 2) 10 = None"
    by (cases "value_iteration ?M [Fin 1] ?thr (1 / 2) 10") simp_all
  with f32_round_tiny_threshold 3 2 show ?thesis by (intro conjI)
qed

section \<open>Value iteration depends on its inputs alone\<close>

lemma option_eqI: "(\<And>y. a = Some y \<longleftrightarrow> b = Some y) \<Longrightarrow> a = b"
  by (cases a; cases b) auto

lemma vi_frame:
  assumes "NS m' = NS m" "NA m' = NA m" "T m' = T m" "phi m' = phi m"
    "is_terminal m' = is_terminal m"
  shows "value_iteration m' w thr gamma beta = value_iteration m w thr gamma beta"
proof -
  have body: "vi_body m' w gamma beta = vi_body m w gamma beta"
    by (intro ext) (simp add: vi_body_def vi_Q_def assms)
  have sweep: "vi_sweep_order order m' w gamma beta = vi_sweep_order order m w gamma beta" for order
    by (intro ext) (simp add: vi_sweep_order_def body)
  have loop: "vi_while_order order m' w thr gamma beta st = vi_while_order order m w thr gamma beta st"
    for order st
    by (rule option_eqI) (simp add: vi_while_order_iff sweep)
  have init: "vi_init m' w thr = vi_init m w thr"
    unfolding vi_init_def vi_init_V_def assms by (rule refl)
  show ?thesis
    by (simp add: value_iteration_def value_iteration_order_def loop init assms)
qed

section \<open>The successor-feature iteration\<close>

lemma sf_while_step:
  "fge (sf_delta st) (f32_round thr) \<Longrightarrow>
   sf_while m thr gamma p widx st = sf_while m thr gamma p widx (sf_sweep m gamma p widx st)"
  by (subst sf_while.simps) simp

lemma sf_while_exit:
  "\<not> fge (sf_delta st) (f32_round thr) \<Longrightarrow> sf_while m thr gamma p widx st = Some st"
  by (subst sf_while.simps) simp

lemma sf_while_iter:
  assumes "\<not> fge (sf_delta ((sf_sweep m gamma p widx ^^ n) st)) (f32_round thr)"
    and "\<And>k. k < n \<Longrightarrow> fge (sf_delta ((sf_sweep m gamma p widx ^^ k) st)) (f32_round thr)"
  shows "sf_while m thr gamma p widx st = Some ((sf_sweep m gamma p widx ^^ n) st)"
  using assms
proof (induction n arbitrary: st)
  case 0
  then show ?case by (simp add: sf_while_exit)
next
  case (Suc n)
  let ?f = "sf_sweep m gamma p widx"
  have d: "fge (sf_delta st) (f32_round thr)" using Suc.prems(2) [of 0] by simp
  have "sf_while m thr gamma p widx (?f st) = Some ((?f ^^ n) (?f st))"
  proof (rule Suc.IH)
    show "\<not> fge (sf_delta ((?f ^^ n) (?f st))) (f32_round thr)"
      using Suc.prems(1) by (simp add: funpow_swap1)
    show "fge (sf_delta ((?f ^^ k) (?f st))) (f32_round thr)" if "k < n" for k
      using Suc.prems(2) [of "Suc k"] that by (simp add: funpow_swap1)
  qed
  then show ?case
    by (simp add: sf_while_step [OF d] funpow_swap1)
qed

lemma sf_while_Some:
  assumes "sf_while m thr gamma p widx st = Some st'"
  shows "\<exists>n. st' = (sf_sweep m gamma p widx ^^ n) st \<and> \<not> fge (sf_delta st') (f32_round thr)
            \<and> (\<forall>k<n. fge (sf_delta ((sf_sweep m gamma p widx ^^ k) st)) (f32_round thr))"
proof (induct rule: sf_while.raw_induct [OF _ assms])
  case (1 loop m thr gamma p widx st st')
  let ?f = "sf_sweep m gamma p widx"
  show ?case
  proof (cases "fge (sf_delta st) (f32_round thr)")
    case True
    with "1.hyps"(2) have "loop m thr gamma p widx (?f st) = Some st'" by simp
    from "1.hyps"(1) [OF this] obtain n where n: "st' = (?f ^^ n) (?f st)" "\<not> fge (sf_delta st') (f32_round thr)"
      "\<forall>k<n. fge (sf_delta ((?f ^^ k) (?f st))) (f32_round thr)" by blast
    have "\<forall>k<Suc n. fge (sf_delta ((?f ^^ k) st)) (f32_round thr)"
    proof (intro allI impI)
      fix k assume "k < Suc n"
      then show "fge (sf_delta ((?f ^^ k) st)) (f32_round thr)"
        using True n(3) by (cases k) (simp_all add: funpow_swap1)
    qed
    with n(1,2) show ?thesis
      by (intro exI [of _ "Suc n"]) (simp add: funpow_swap1)
  next
    case False
    with "1.hyps"(2) have "st' = st" by simp
    with False show ?thesis by (intro exI [of _ 0]) simp
  qed
qed

lemma sf_task_iff:
  "sf_task m thr gamma VPtrain widx ps = Some ps' \<longleftrightarrow>
     (\<exists>n>0. ps' = psi ((sf_sweep m gamma (snd (VPtrain ! widx)) widx ^^ n)
                        \<lparr>psi = ps, sf_delta = f32_round thr, sf_count = 0\<rparr>)
        \<and> \<not> fge (sf_delta ((sf_sweep m gamma (snd (VPtrain ! widx)) widx ^^ n)
                      \<lparr>psi = ps, sf_delta = f32_round thr, sf_count = 0\<rparr>)) (f32_round thr)
        \<and> (\<forall>k. 0 < k \<and> k < n \<longrightarrow>
              fge (sf_delta ((sf_sweep m gamma (snd (VPtrain ! widx)) widx ^^ k)
                                \<lparr>psi = ps, sf_delta = f32_round thr, sf_count = 0\<rparr>))
                (f32_round thr)))"
  (is "?L \<longleftrightarrow> ?R")
proof
  let ?st0 = "\<lparr>psi = ps, sf_delta = f32_round thr, sf_count = 0\<rparr>"
  let ?it = "\<lambda>n. (sf_sweep m gamma (snd (VPtrain ! widx)) widx ^^ n) ?st0"
  assume ?L
  then obtain st' where st': "sf_while m thr gamma (snd (VPtrain ! widx)) widx ?st0 = Some st'"
    and r: "ps' = psi st'"
    by (auto simp: sf_task_def)
  from sf_while_Some [OF st'] obtain n where
    n: "st' = ?it n" "\<not> fge (sf_delta st') (f32_round thr)"
    "\<forall>k<n. fge (sf_delta (?it k)) (f32_round thr)"
    by blast
  have "n \<noteq> 0"
  proof
    assume "n = 0"
    with n(1,2) show False by (simp add: fge_refl f32_round_not_NaN)
  qed
  with n r show ?R by (intro exI [of _ n]) auto
next
  let ?st0 = "\<lparr>psi = ps, sf_delta = f32_round thr, sf_count = 0\<rparr>"
  let ?it = "\<lambda>n. (sf_sweep m gamma (snd (VPtrain ! widx)) widx ^^ n) ?st0"
  assume ?R
  then obtain n where n: "0 < n" "ps' = psi (?it n)"
    "\<not> fge (sf_delta (?it n)) (f32_round thr)"
    "\<forall>k. 0 < k \<and> k < n \<longrightarrow> fge (sf_delta (?it k)) (f32_round thr)" by blast
  have "fge (sf_delta (?it k)) (f32_round thr)" if "k < n" for k
    using n(4) that by (cases "k = 0") (simp_all add: fge_refl f32_round_not_NaN)
  then have "sf_while m thr gamma (snd (VPtrain ! widx)) widx ?st0 = Some (?it n)"
    using n(3) by (intro sf_while_iter) auto
  then show ?L
    using n(2) by (simp add: sf_task_def)
qed

lemma those_map_nth:
  "those (map f xs) = Some ys \<Longrightarrow> i < length xs \<Longrightarrow> f (xs ! i) = Some (ys ! i)"
proof (induction xs arbitrary: ys i)
  case Nil
  then show ?case by simp
next
  case (Cons x xs)
  then show ?case
    by (cases i) (auto split: option.splits)
qed

lemma those_map_length: "those (map f xs) = Some ys \<Longrightarrow> length ys = length xs"
  by (induction xs arbitrary: ys) (auto split: option.splits)

lemma vecmat_nth:
  assumes "M \<noteq> []" "\<forall>row\<in>set M. length row = n"
  shows "length (vecmat v M) = n"
    and "j < n \<Longrightarrow> vecmat v M ! j = dot v (column M j)"
proof -
  have nc: "ncols M = n"
    using assms(1,2) by (cases M) (simp_all add: ncols_def)
  show "length (vecmat v M) = n" by (simp add: vecmat_def nc)
  show "j < n \<Longrightarrow> vecmat v M ! j = dot v (column M j)" by (simp add: vecmat_def nc)
qed

lemma sf_update_nth:
  assumes wf: "wf_mtrl m" and s: "s < NS m"
    and P: "length Ps = NS m" "\<forall>row\<in>set Ps. length row = NP m"
  shows "length (sf_update m gamma p Ps s) = NP m"
    and "j < NP m \<Longrightarrow> sf_update m gamma p Ps s ! j =
           fadd (phi m ! s ! j)
             (fmul (f32_round gamma)
                (dot (map (\<lambda>s'. dot (p ! s) (column (T m ! s) s')) [0..<NS m]) (column Ps j)))"
proof -
  let ?u = "vecmat (p ! s) (T m ! s)"
  have Tne: "T m ! s \<noteq> []" using wf_T_row(1) [OF wf s] wf by (auto simp: wf_mtrl_def)
  have Trows: "\<forall>row\<in>set (T m ! s). length row = NS m"
    using wf_T_row(2) [OF wf s] wf_T_row(1) [OF wf s] by (auto simp: in_set_conv_nth)
  have lu: "length ?u = NS m" by (rule vecmat_nth(1) [OF Tne Trows])
  have u: "?u = map (\<lambda>s'. dot (p ! s) (column (T m ! s) s')) [0..<NS m]"
    using lu vecmat_nth(2) [OF Tne Trows] by (intro nth_equalityI) simp_all
  have Pne: "Ps \<noteq> []" using P(1) wf by (auto simp: wf_mtrl_def)
  have lo: "length (vecmat ?u Ps) = NP m" by (rule vecmat_nth(1) [OF Pne P(2)])
  have lphi: "length (phi m ! s) = NP m"
    using wf s by (simp add: wf_mtrl_def)
  show "length (sf_update m gamma p Ps s) = NP m"
    by (simp add: sf_update_def vadd_def scale_def lo lphi)
  assume j: "j < NP m"
  have "vecmat ?u Ps ! j = dot ?u (column Ps j)"
    by (rule vecmat_nth(2) [OF Pne P(2) j])
  then show "sf_update m gamma p Ps s ! j =
           fadd (phi m ! s ! j)
             (fmul (f32_round gamma)
                (dot (map (\<lambda>s'. dot (p ! s) (column (T m ! s) s')) [0..<NS m]) (column Ps j)))"
    using j lo lphi unfolding u [symmetric] by (simp add: sf_update_def vadd_def scale_def)
qed

lemma sf_sweep_rows:
  assumes wf: "wf_mtrl m" and w: "widx < length (psi st)"
    and l: "length (psi st ! widx) = NS m" and r: "\<forall>row\<in>set (psi st ! widx). length row = NP m"
    and p: "\<forall>s<NS m. length (p ! s) = NA m"
  shows "\<forall>row\<in>set (psi (sf_sweep m gamma p widx st) ! widx). length row = NP m"
proof -
  let ?P' = "psi (sf_sweep m gamma p widx st) ! widx"
  have l': "length ?P' = NS m" by (rule sf_sweep_delta(3) [OF w l])
  have "length (?P' ! s) = NP m" if "s < NS m" for s
    using that
  proof (induction s rule: less_induct)
    case (less s)
    let ?Ps = "take s ?P' @ drop s (psi st ! widx)"
    have lPs: "length ?Ps = NS m" using l l' less.prems by simp
    have "length row = NP m" if "row \<in> set ?Ps" for row
    proof -
      from that consider "row \<in> set (take s ?P')" | "row \<in> set (drop s (psi st ! widx))"
        by auto
      then show ?thesis
      proof cases
        case 1
        then obtain i where "i < s" "row = ?P' ! i"
          using l' less.prems by (auto simp: in_set_conv_nth)
        then show ?thesis using less.IH [of i] less.prems by simp
      next
        case 2
        then have "row \<in> set (psi st ! widx)" by (rule in_set_dropD)
        with r show ?thesis by simp
      qed
    qed
    then have rPs: "\<forall>row\<in>set ?Ps. length row = NP m" by blast
    have "?P' ! s = sf_update m gamma p ?Ps s"
      by (rule sf_sweep_nth [OF w l less.prems])
    then show ?case
      using sf_update_nth(1) [OF wf less.prems lPs rPs] by simp
  qed
  with l' show ?thesis by (auto simp: in_set_conv_nth)
qed

lemma sf_iter_shape:
  assumes wf: "wf_mtrl m" and w: "widx < length ps"
    and l: "length (ps ! widx) = NS m" and r: "\<forall>row\<in>set (ps ! widx). length row = NP m"
    and p: "\<forall>s<NS m. length (p ! s) = NA m"
  shows "length (psi ((sf_sweep m gamma p widx ^^ n) \<lparr>psi = ps, sf_delta = f32_round thr, sf_count = 0\<rparr>))
           = length ps
       \<and> length (psi ((sf_sweep m gamma p widx ^^ n) \<lparr>psi = ps, sf_delta = f32_round thr, sf_count = 0\<rparr>)
                  ! widx) = NS m
       \<and> (\<forall>row\<in>set (psi ((sf_sweep m gamma p widx ^^ n)
                          \<lparr>psi = ps, sf_delta = f32_round thr, sf_count = 0\<rparr>) ! widx). length row = NP m)
       \<and> (\<forall>c. c \<noteq> widx \<longrightarrow>
             psi ((sf_sweep m gamma p widx ^^ n) \<lparr>psi = ps, sf_delta = f32_round thr, sf_count = 0\<rparr>) ! c
             = ps ! c)"
proof (induction n)
  case 0
  show ?case using l r by simp
next
  case (Suc n)
  define st where "st = (sf_sweep m gamma p widx ^^ n) \<lparr>psi = ps, sf_delta = f32_round thr, sf_count = 0\<rparr>"
  from Suc have a: "length (psi st) = length ps" "length (psi st ! widx) = NS m"
    "\<forall>row\<in>set (psi st ! widx). length row = NP m" "\<forall>c. c \<noteq> widx \<longrightarrow> psi st ! c = ps ! c"
    by (simp_all add: st_def)
  have w': "widx < length (psi st)" using a(1) w by simp
  show ?case
    unfolding funpow.simps o_apply st_def [symmetric]
    using sf_sweep_delta(2-4) [OF w' a(2), where gamma = gamma and p = p] sf_sweep_rows [OF wf w' a(2,3) p, where gamma = gamma]
      a(1,4)
    by simp
qed

lemma softmax_length: "length (softmax v) = length v"
  by (simp add: softmax_def)

lemma vi_result_shape:
  assumes wf: "wf_mtrl m" and r: "value_iteration m w thr gamma beta = Some (Vr, Pr)"
  shows "length Vr = NS m" and "length Pr = NS m" and "\<forall>s<NS m. length (Pr ! s) = NA m"
proof -
  let ?it = "\<lambda>n. (vi_sweep m w gamma beta ^^ n) (vi_init m w thr)"
  from r obtain n where n: "0 < n" "Vr = V (?it n)" "Pr = pol (?it n)"
    unfolding value_iteration_iff by blast
  then obtain k where k: "n = Suc k" by (cases n) simp_all
  note l = vi_iter_lengths [where m = m and w = w and gamma = gamma and beta = beta and thr = thr]
  show "length Vr = NS m" "length Pr = NS m" using l [of n] n by simp_all
  have lk: "length (V (?it k)) = NS m" "length (pol (?it k)) = NS m" using l [of k] by simp_all
  have NA: "0 < NA m" using wf by (simp add: wf_mtrl_def)
  show "\<forall>s<NS m. length (Pr ! s) = NA m"
  proof (intro allI impI)
    fix s assume s: "s < NS m"
    let ?Vs = "take s (V (vi_sweep m w gamma beta (?it k))) @ drop s (V (?it k))"
    have lVs: "length ?Vs = NS m"
      using lk vi_sweep_lengths(1) [OF lk, of w gamma beta] s by simp
    have "Pr ! s = softmax (scale beta (vi_Q m w gamma ?Vs s))"
      using vi_sweep_nth(2) [OF lk s, of w gamma beta] n(3) k by simp
    then show "length (Pr ! s) = NA m"
      using vi_Q_nth(1) [OF wf lVs s NA, of w gamma] by (simp add: softmax_length scale_def)
  qed
qed

lemma sf_task_shape:
  assumes wf: "wf_mtrl m" and t: "sf_task m thr gamma VP w ps = Some ps1"
    and w: "w < length ps"
    and l: "length (ps ! w) = NS m" and r: "\<forall>row\<in>set (ps ! w). length row = NP m"
    and p: "\<forall>s<NS m. length (snd (VP ! w) ! s) = NA m"
  shows "length ps1 = length ps" and "length (ps1 ! w) = NS m"
    and "\<forall>row\<in>set (ps1 ! w). length row = NP m" and "\<forall>c. c \<noteq> w \<longrightarrow> ps1 ! c = ps ! c"
proof -
  from t obtain n where
    n: "ps1 = psi ((sf_sweep m gamma (snd (VP ! w)) w ^^ n) \<lparr>psi = ps, sf_delta = f32_round thr, sf_count = 0\<rparr>)"
    unfolding sf_task_iff by blast
  note sh = sf_iter_shape [OF wf w l r p, where gamma = gamma and n = n and thr = thr, folded n]
  from sh show "length ps1 = length ps" by blast
  from sh show "length (ps1 ! w) = NS m" by blast
  from sh show "\<forall>row\<in>set (ps1 ! w). length row = NP m" by blast
  from sh show "\<forall>c. c \<noteq> w \<longrightarrow> ps1 ! c = ps ! c" by blast
qed

lemma sf_tasks_slices:
  assumes wf: "wf_mtrl m"
    and p: "\<forall>w\<in>set ws. \<forall>s<NS m. length (snd (VP ! w) ! s) = NA m"
  shows "sf_tasks m thr gamma VP ws ps = Some res \<Longrightarrow> distinct ws \<Longrightarrow>
     \<forall>w\<in>set ws. w < length ps \<Longrightarrow>
     \<forall>c<length ps. length (ps ! c) = NS m \<and> (\<forall>row\<in>set (ps ! c). length row = NP m) \<Longrightarrow>
     length res = length ps
     \<and> (\<forall>c. c \<notin> set ws \<longrightarrow> res ! c = ps ! c)
     \<and> (\<forall>w\<in>set ws. \<exists>q q'. length q = length ps \<and> q ! w = ps ! w
            \<and> sf_task m thr gamma VP w q = Some q' \<and> res ! w = q' ! w)"
  using p
proof (induction ws arbitrary: ps)
  case Nil
  then show ?case by simp
next
  case (Cons w ws)
  from Cons.prems(1) obtain ps1 where t: "sf_task m thr gamma VP w ps = Some ps1"
    and rest: "sf_tasks m thr gamma VP ws ps1 = Some res"
    by (auto split: option.splits)
  have w: "w < length ps" using Cons.prems(3) by simp
  have l: "length (ps ! w) = NS m" and r: "\<forall>row\<in>set (ps ! w). length row = NP m"
    using Cons.prems(4) w by simp_all
  have pw: "\<forall>s<NS m. length (snd (VP ! w) ! s) = NA m" using Cons.prems(5) by simp
  note sh = sf_task_shape [OF wf t w l r pw]
  have shape1: "\<forall>c<length ps1. length (ps1 ! c) = NS m \<and> (\<forall>row\<in>set (ps1 ! c). length row = NP m)"
  proof (intro allI impI)
    fix c assume c: "c < length ps1"
    show "length (ps1 ! c) = NS m \<and> (\<forall>row\<in>set (ps1 ! c). length row = NP m)"
    proof (cases "c = w")
      case True
      then show ?thesis using sh(2,3) by simp
    next
      case False
      then show ?thesis using sh(1,4) Cons.prems(4) c by simp
    qed
  qed
  have ih: "length res = length ps1
     \<and> (\<forall>c. c \<notin> set ws \<longrightarrow> res ! c = ps1 ! c)
     \<and> (\<forall>w\<in>set ws. \<exists>q q'. length q = length ps1 \<and> q ! w = ps1 ! w
            \<and> sf_task m thr gamma VP w q = Some q' \<and> res ! w = q' ! w)"
    using Cons.IH [OF rest _ _ shape1] Cons.prems(2,3,5) sh(1) by simp
  have 1: "length res = length ps" using ih sh(1) by simp
  have 2: "\<forall>c. c \<notin> set (w # ws) \<longrightarrow> res ! c = ps ! c" using ih sh(4) by simp
  have 3: "\<exists>q q'. length q = length ps \<and> q ! v = ps ! v
            \<and> sf_task m thr gamma VP v q = Some q' \<and> res ! v = q' ! v" if "v \<in> set (w # ws)" for v
  proof (cases "v = w")
    case True
    have "res ! w = ps1 ! w" using ih Cons.prems(2) by simp
    with t True show ?thesis by (intro exI [of _ ps] exI [of _ ps1]) simp
  next
    case False
    with that have v: "v \<in> set ws" by simp
    with ih obtain q q' where "length q = length ps1" "q ! v = ps1 ! v"
      "sf_task m thr gamma VP v q = Some q'" "res ! v = q' ! v" by blast
    with sh(1,4) False show ?thesis by (intro exI [of _ q] exI [of _ q']) simp
  qed
  from 1 2 3 show ?case by blast
qed

text \<open>
  Claim C6, as the program has it. For every training task \<open>widx\<close>, with \<open>pi\<close> the policy that
  \<^verbatim>\<open>value_iteration\<close> returns for that task, every sweep of the successor-feature loop sets,
  for every state \<open>s\<close>, \<open>psi(s) = phi(s) + gamma * (pi(s) @ T[s] @ psi)\<close> in 32-bit floats, where
  \<open>psi\<close> is the slice \<^verbatim>\<open>psi[widx]\<close> as it stands when \<open>s\<close> is updated. The \<^verbatim>\<open>delta\<close> of a sweep is
  Python's \<^verbatim>\<open>max\<close>, taken from 0 along the states, of the Euclidean norms of the changes of
  \<open>psi(s)\<close> over the sweep, which is their maximum when none of them is a NaN or an infinity.
  The loop ends exactly after the first sweep (at least one is made) whose \<^verbatim>\<open>delta\<close> is not
  at least the threshold converted to a 32-bit float. In \<^verbatim>\<open>sfgpi_train\<close> the slice of every
  task is the result of that loop started from \<open>phi\<close>.
\<close>

theorem sf_iteration_spec:
  assumes wf: "wf_mtrl m"
    and vp: "those (map (\<lambda>wtr. value_iteration m wtr (1 / 100) gamma beta) (Wtrain m)) = Some VPtrain"
    and widx: "widx < Ntrain m"
    and ps: "length ps = Ntrain m" "length (ps ! widx) = NS m"
      "\<forall>row\<in>set (ps ! widx). length row = NP m"
  shows
    "value_iteration m (Wtrain m ! widx) (1 / 100) gamma beta = Some (VPtrain ! widx)
     \<and> (\<forall>n s. s < NS m \<longrightarrow>
          (let p = snd (VPtrain ! widx);
               st = (sf_sweep m gamma p widx ^^ n) \<lparr>psi = ps, sf_delta = f32_round thr, sf_count = 0\<rparr>;
               st' = sf_sweep m gamma p widx st;
               Ps = take s (psi st' ! widx) @ drop s (psi st ! widx)
           in psi st' ! widx ! s =
                vadd (phi m ! s) (scale gamma (vecmat (vecmat (p ! s) (T m ! s)) Ps))
              \<and> (\<forall>j<NP m. psi st' ! widx ! s ! j =
                    fadd (phi m ! s ! j)
                      (fmul (f32_round gamma)
                         (dot (map (\<lambda>s'. dot (p ! s) (column (T m ! s) s')) [0..<NS m])
                            (column Ps j))))))
     \<and> (\<forall>n. let p = snd (VPtrain ! widx);
               st = (sf_sweep m gamma p widx ^^ n) \<lparr>psi = ps, sf_delta = f32_round thr, sf_count = 0\<rparr>;
               st' = sf_sweep m gamma p widx st;
               change = (\<lambda>s. tdist (psi st' ! widx ! s) (psi st ! widx ! s))
           in sf_delta st' = fold (\<lambda>s d. pymax d (change s)) [0..<NS m] (Fin 0)
              \<and> ((\<forall>s<NS m. \<exists>c. change s = Fin c) \<longrightarrow>
                   sf_delta st' = Fin (Max (insert 0 ((\<lambda>s. fin (change s)) ` {..<NS m})))))
     \<and> (sf_task m thr gamma VPtrain widx ps = Some ps' \<longleftrightarrow>
          (\<exists>n>0. ps' = psi ((sf_sweep m gamma (snd (VPtrain ! widx)) widx ^^ n)
                             \<lparr>psi = ps, sf_delta = f32_round thr, sf_count = 0\<rparr>)
             \<and> \<not> fge (sf_delta ((sf_sweep m gamma (snd (VPtrain ! widx)) widx ^^ n)
                           \<lparr>psi = ps, sf_delta = f32_round thr, sf_count = 0\<rparr>)) (f32_round thr)
             \<and> (\<forall>k. 0 < k \<and> k < n \<longrightarrow>
                   fge (sf_delta ((sf_sweep m gamma (snd (VPtrain ! widx)) widx ^^ k)
                                     \<lparr>psi = ps, sf_delta = f32_round thr, sf_count = 0\<rparr>))
                     (f32_round thr))))
     \<and> (sfgpi_train m thr gamma beta = Some res \<longrightarrow>
          (\<exists>q q'. length q = Ntrain m \<and> q ! widx = phi m
             \<and> sf_task m thr gamma VPtrain widx q = Some q' \<and> res ! widx = q' ! widx))"
proof -
  define p where "p = snd (VPtrain ! widx)"
  have lW: "length (Wtrain m) = Ntrain m" using wf by (simp add: wf_mtrl_def)
  have vi: "value_iteration m (Wtrain m ! w) (1 / 100) gamma beta = Some (VPtrain ! w)"
    if "w < Ntrain m" for w
    using those_map_nth [OF vp] that lW by simp
  have pol_shape: "\<forall>s<NS m. length (snd (VPtrain ! w) ! s) = NA m" if "w < Ntrain m" for w
    using vi_result_shape(3) [OF wf, of "Wtrain m ! w" "1 / 100" gamma beta
        "fst (VPtrain ! w)" "snd (VPtrain ! w)"] vi [OF that] by simp
  have pp: "\<forall>s<NS m. length (p ! s) = NA m" using pol_shape [OF widx] by (simp add: p_def)
  have w: "widx < length ps" using ps(1) widx by simp
  note sh = sf_iter_shape [OF wf w ps(2,3) pp, where gamma = gamma and thr = thr]
  have B: "psi (sf_sweep m gamma p widx
                 ((sf_sweep m gamma p widx ^^ n) \<lparr>psi = ps, sf_delta = f32_round thr, sf_count = 0\<rparr>))
             ! widx ! s =
           vadd (phi m ! s) (scale gamma (vecmat (vecmat (p ! s) (T m ! s))
             (take s (psi (sf_sweep m gamma p widx
                 ((sf_sweep m gamma p widx ^^ n) \<lparr>psi = ps, sf_delta = f32_round thr, sf_count = 0\<rparr>))
                 ! widx)
              @ drop s (psi ((sf_sweep m gamma p widx ^^ n)
                   \<lparr>psi = ps, sf_delta = f32_round thr, sf_count = 0\<rparr>) ! widx))))
         \<and> (\<forall>j<NP m. psi (sf_sweep m gamma p widx
                 ((sf_sweep m gamma p widx ^^ n) \<lparr>psi = ps, sf_delta = f32_round thr, sf_count = 0\<rparr>))
             ! widx ! s ! j =
               fadd (phi m ! s ! j)
                 (fmul (f32_round gamma)
                    (dot (map (\<lambda>s'. dot (p ! s) (column (T m ! s) s')) [0..<NS m])
                       (column (take s (psi (sf_sweep m gamma p widx
                 ((sf_sweep m gamma p widx ^^ n) \<lparr>psi = ps, sf_delta = f32_round thr, sf_count = 0\<rparr>))
                 ! widx)
              @ drop s (psi ((sf_sweep m gamma p widx ^^ n)
                   \<lparr>psi = ps, sf_delta = f32_round thr, sf_count = 0\<rparr>) ! widx)) j))))"
    if s: "s < NS m" for n s
  proof -
    define st where "st = (sf_sweep m gamma p widx ^^ n) \<lparr>psi = ps, sf_delta = f32_round thr, sf_count = 0\<rparr>"
    define st' where "st' = sf_sweep m gamma p widx st"
    define Ps where "Ps = take s (psi st' ! widx) @ drop s (psi st ! widx)"
    have a: "widx < length (psi st)" "length (psi st ! widx) = NS m"
      "\<forall>row\<in>set (psi st ! widx). length row = NP m"
      using sh [of n] w by (simp_all add: st_def)
    have a': "length (psi st' ! widx) = NS m" "\<forall>row\<in>set (psi st' ! widx). length row = NP m"
      using sh [of "Suc n"] by (simp_all add: st'_def st_def)
    have lPs: "length Ps = NS m" using a(2) a'(1) s by (simp add: Ps_def)
    have rPs: "\<forall>row\<in>set Ps. length row = NP m"
      using a(3) a'(2) by (auto simp: Ps_def dest: in_set_takeD in_set_dropD)
    have 1: "psi st' ! widx ! s = sf_update m gamma p Ps s"
      unfolding st'_def Ps_def by (rule sf_sweep_nth [OF a(1,2) s])
    have 2: "\<forall>j<NP m. psi st' ! widx ! s ! j =
          fadd (phi m ! s ! j)
            (fmul (f32_round gamma)
               (dot (map (\<lambda>s'. dot (p ! s) (column (T m ! s) s')) [0..<NS m]) (column Ps j)))"
      using sf_update_nth(2) [OF wf s lPs rPs, of _ gamma p] 1 by simp
    show ?thesis
      unfolding st_def [symmetric] st'_def [symmetric] Ps_def [symmetric]
      using 1 2 by (simp add: sf_update_def)
  qed
  have C: "sf_delta (sf_sweep m gamma p widx
                 ((sf_sweep m gamma p widx ^^ n) \<lparr>psi = ps, sf_delta = f32_round thr, sf_count = 0\<rparr>)) =
           fold (\<lambda>s d. pymax d (tdist (psi (sf_sweep m gamma p widx
                 ((sf_sweep m gamma p widx ^^ n) \<lparr>psi = ps, sf_delta = f32_round thr, sf_count = 0\<rparr>))
                   ! widx ! s)
                 (psi ((sf_sweep m gamma p widx ^^ n)
                   \<lparr>psi = ps, sf_delta = f32_round thr, sf_count = 0\<rparr>) ! widx ! s)))
             [0..<NS m] (Fin 0)"
    for n
  proof -
    define st where "st = (sf_sweep m gamma p widx ^^ n) \<lparr>psi = ps, sf_delta = f32_round thr, sf_count = 0\<rparr>"
    have a: "widx < length (psi st)" "length (psi st ! widx) = NS m"
      using sh [of n] w by (simp_all add: st_def)
    show ?thesis
      unfolding st_def [symmetric] by (rule sf_sweep_delta(1) [OF a])
  qed
  have E: "\<exists>q q'. length q = Ntrain m \<and> q ! widx = phi m
             \<and> sf_task m thr gamma VPtrain widx q = Some q' \<and> res ! widx = q' ! widx"
    if tr: "sfgpi_train m thr gamma beta = Some res"
  proof -
    let ?ps0 = "replicate (Ntrain m) (phi m)"
    from tr vp have t: "sf_tasks m thr gamma VPtrain [0..<Ntrain m] ?ps0 = Some res"
      by (simp add: sfgpi_train_def)
    have pall: "\<forall>w\<in>set [0..<Ntrain m]. \<forall>s<NS m. length (snd (VPtrain ! w) ! s) = NA m"
      using pol_shape by simp
    have shape0: "\<forall>c<length ?ps0. length (?ps0 ! c) = NS m
        \<and> (\<forall>row\<in>set (?ps0 ! c). length row = NP m)"
      using wf by (simp add: wf_mtrl_def)
    have "\<forall>w\<in>set [0..<Ntrain m]. \<exists>q q'. length q = length ?ps0 \<and> q ! w = ?ps0 ! w
            \<and> sf_task m thr gamma VPtrain w q = Some q' \<and> res ! w = q' ! w"
      using sf_tasks_slices [OF wf pall t _ _ shape0] by simp
    moreover have "widx \<in> set [0..<Ntrain m]" using widx by simp
    ultimately obtain q q' where "length q = length ?ps0" "q ! widx = ?ps0 ! widx"
      "sf_task m thr gamma VPtrain widx q = Some q'" "res ! widx = q' ! widx"
      by blast
    with widx show ?thesis by (intro exI [of _ q] exI [of _ q']) simp
  qed
  show ?thesis
    unfolding Let_def p_def [symmetric]
  proof (intro conjI allI impI)
    show "value_iteration m (Wtrain m ! widx) (1 / 100) gamma beta = Some (VPtrain ! widx)"
      by (rule vi [OF widx])
  next
    fix n s assume "s < NS m"
    from B [OF this, of n, THEN conjunct1]
    show "psi (sf_sweep m gamma p widx
                 ((sf_sweep m gamma p widx ^^ n) \<lparr>psi = ps, sf_delta = f32_round thr, sf_count = 0\<rparr>))
             ! widx ! s =
           vadd (phi m ! s) (scale gamma (vecmat (vecmat (p ! s) (T m ! s))
             (take s (psi (sf_sweep m gamma p widx
                 ((sf_sweep m gamma p widx ^^ n) \<lparr>psi = ps, sf_delta = f32_round thr, sf_count = 0\<rparr>))
                 ! widx)
              @ drop s (psi ((sf_sweep m gamma p widx ^^ n)
                   \<lparr>psi = ps, sf_delta = f32_round thr, sf_count = 0\<rparr>) ! widx))))" .
  next
    fix n s j assume "s < NS m" "j < NP m"
    with B [of s n, THEN conjunct2]
    show "psi (sf_sweep m gamma p widx
                 ((sf_sweep m gamma p widx ^^ n) \<lparr>psi = ps, sf_delta = f32_round thr, sf_count = 0\<rparr>))
             ! widx ! s ! j =
               fadd (phi m ! s ! j)
                 (fmul (f32_round gamma)
                    (dot (map (\<lambda>s'. dot (p ! s) (column (T m ! s) s')) [0..<NS m])
                       (column (take s (psi (sf_sweep m gamma p widx
                 ((sf_sweep m gamma p widx ^^ n) \<lparr>psi = ps, sf_delta = f32_round thr, sf_count = 0\<rparr>))
                 ! widx)
              @ drop s (psi ((sf_sweep m gamma p widx ^^ n)
                   \<lparr>psi = ps, sf_delta = f32_round thr, sf_count = 0\<rparr>) ! widx)) j)))"
      by blast
  next
    fix n
    show "sf_delta (sf_sweep m gamma p widx
                 ((sf_sweep m gamma p widx ^^ n) \<lparr>psi = ps, sf_delta = f32_round thr, sf_count = 0\<rparr>)) =
           fold (\<lambda>s d. pymax d (tdist (psi (sf_sweep m gamma p widx
                 ((sf_sweep m gamma p widx ^^ n) \<lparr>psi = ps, sf_delta = f32_round thr, sf_count = 0\<rparr>))
                   ! widx ! s)
                 (psi ((sf_sweep m gamma p widx ^^ n)
                   \<lparr>psi = ps, sf_delta = f32_round thr, sf_count = 0\<rparr>) ! widx ! s)))
             [0..<NS m] (Fin 0)"
      by (rule C)
  next
    fix n
    assume "\<forall>s<NS m. \<exists>c. tdist (psi (sf_sweep m gamma p widx
                 ((sf_sweep m gamma p widx ^^ n) \<lparr>psi = ps, sf_delta = f32_round thr, sf_count = 0\<rparr>))
                   ! widx ! s)
                 (psi ((sf_sweep m gamma p widx ^^ n)
                   \<lparr>psi = ps, sf_delta = f32_round thr, sf_count = 0\<rparr>) ! widx ! s) = Fin c"
    then show "sf_delta (sf_sweep m gamma p widx
                 ((sf_sweep m gamma p widx ^^ n) \<lparr>psi = ps, sf_delta = f32_round thr, sf_count = 0\<rparr>)) =
        Fin (Max (insert 0 ((\<lambda>s. fin (tdist (psi (sf_sweep m gamma p widx
                 ((sf_sweep m gamma p widx ^^ n) \<lparr>psi = ps, sf_delta = f32_round thr, sf_count = 0\<rparr>))
                   ! widx ! s)
                 (psi ((sf_sweep m gamma p widx ^^ n)
                   \<lparr>psi = ps, sf_delta = f32_round thr, sf_count = 0\<rparr>) ! widx ! s))) ` {..<NS m})))"
      unfolding C by (rule pymax_fold_fin)
  next
    show "sf_task m thr gamma VPtrain widx ps = Some ps' \<longleftrightarrow>
          (\<exists>n>0. ps' = psi ((sf_sweep m gamma p widx ^^ n)
                             \<lparr>psi = ps, sf_delta = f32_round thr, sf_count = 0\<rparr>)
             \<and> \<not> fge (sf_delta ((sf_sweep m gamma p widx ^^ n)
                           \<lparr>psi = ps, sf_delta = f32_round thr, sf_count = 0\<rparr>)) (f32_round thr)
             \<and> (\<forall>k. 0 < k \<and> k < n \<longrightarrow>
                   fge (sf_delta ((sf_sweep m gamma p widx ^^ k)
                                     \<lparr>psi = ps, sf_delta = f32_round thr, sf_count = 0\<rparr>))
                     (f32_round thr)))"
      unfolding p_def by (rule sf_task_iff)
  next
    assume "sfgpi_train m thr gamma beta = Some res"
    then show "\<exists>q q'. length q = Ntrain m \<and> q ! widx = phi m
             \<and> sf_task m thr gamma VPtrain widx q = Some q' \<and> res ! widx = q' ! widx"
      by (rule E)
  qed
qed

lemma chain1_fields:
  "Wtrain ((chain2 f0 f1)\<lparr>Wtrain := W, Ntrain := k\<rparr>) = W"
  "Ntrain ((chain2 f0 f1)\<lparr>Wtrain := W, Ntrain := k\<rparr>) = k"
  "NS ((chain2 f0 f1)\<lparr>Wtrain := W, Ntrain := k\<rparr>) = 2"
  "NA ((chain2 f0 f1)\<lparr>Wtrain := W, Ntrain := k\<rparr>) = 1"
  "NP ((chain2 f0 f1)\<lparr>Wtrain := W, Ntrain := k\<rparr>) = length f1"
  "phi ((chain2 f0 f1)\<lparr>Wtrain := W, Ntrain := k\<rparr>) = [f0, f1]"
  "T ((chain2 f0 f1)\<lparr>Wtrain := W, Ntrain := k\<rparr>) = [[[Fin 0, Fin 1]], [[Fin 0, Fin 0]]]"
  by (simp_all add: chain2_def)

theorem sf_iteration_spec_witness:
  "wf_mtrl ((chain2 [Fin 0] [Fin 1])\<lparr>Wtrain := [[Fin 1]], Ntrain := 1\<rparr>)
   \<and> those (map (\<lambda>wtr. value_iteration ((chain2 [Fin 0] [Fin 1])\<lparr>Wtrain := [[Fin 1]], Ntrain := 1\<rparr>)
                  wtr (1 / 100) (9 / 10) 10)
         (Wtrain ((chain2 [Fin 0] [Fin 1])\<lparr>Wtrain := [[Fin 1]], Ntrain := 1\<rparr>))) =
       Some [([Fin 1, Fin 0], [[Fin 1], [Fin 1]])]
   \<and> (0 :: nat) < Ntrain ((chain2 [Fin 0] [Fin 1])\<lparr>Wtrain := [[Fin 1]], Ntrain := 1\<rparr>)
   \<and> psi (sf_sweep ((chain2 [Fin 0] [Fin 1])\<lparr>Wtrain := [[Fin 1]], Ntrain := 1\<rparr>) (9 / 10)
            [[Fin 1], [Fin 1]] 0
          \<lparr>psi = [[[Fin 0], [Fin 1]]], sf_delta = f32_round (1 / 100), sf_count = 0\<rparr>) ! 0 ! 0 =
       [Fin (7549747 / 8388608)]"
proof -
  define M1 where "M1 = (chain2 [Fin 0] [Fin 1])\<lparr>Wtrain := [[Fin 1]], Ntrain := 1\<rparr>"
  have wf: "wf_mtrl M1" by (simp add: M1_def wf_mtrl_def chain2_def)
  have v: "value_iteration M1 [Fin 1] (1 / 100) (9 / 10) 10 = Some ([Fin 1, Fin 0], [[Fin 1], [Fin 1]])"
    using vi_frame [of M1 "chain2 [Fin 0] [Fin 1]" "[Fin 1]" "1 / 100" "9 / 10" 10]
      chain2_default_value
    by (simp add: M1_def)
  have W: "Wtrain M1 = [[Fin 1]]" "Ntrain M1 = 1" "NS M1 = 2" "NP M1 = 1"
    "phi M1 = [[Fin 0], [Fin 1]]" "T M1 = [[[Fin 0, Fin 1]], [[Fin 0, Fin 0]]]"
    by (simp_all add: M1_def chain2_def)
  have vp: "those (map (\<lambda>wtr. value_iteration M1 wtr (1 / 100) (9 / 10) 10) (Wtrain M1)) =
       Some [([Fin 1, Fin 0], [[Fin 1], [Fin 1]])]"
    by (simp add: W v)
  have w: "(0 :: nat) < Ntrain M1" by (simp add: W)
  have l: "length [[[Fin 0], [Fin 1]]] = Ntrain M1" "length ([[[Fin 0], [Fin 1]]] ! 0) = NS M1"
    "\<forall>row\<in>set ([[[Fin 0], [Fin 1]]] ! 0). length row = NP M1"
    by (simp_all add: W)
  note th = sf_iteration_spec [OF wf vp w l, where thr = "1 / 100", THEN conjunct2,
      THEN conjunct1, rule_format, of 0 0]
  have s0: "(0 :: nat) < NS M1" by (simp add: W)
  have a: "f32_round (7549747 / 8388608) = Fin (7549747 / 8388608)"
    using f32_round_dyadic [of 7549747 23] by simp
  from th [OF s0]
  have "psi (sf_sweep M1 (9 / 10) [[Fin 1], [Fin 1]] 0
          \<lparr>psi = [[[Fin 0], [Fin 1]]], sf_delta = f32_round (1 / 100), sf_count = 0\<rparr>) ! 0 ! 0 =
       [Fin (7549747 / 8388608)]"
    by (simp add: W Let_def vecmat_def ncols_def column_def dot_def scale_def vadd_def upt2
        f32_round_0 f32_round_1 f32_round_nine_tenths a)
  with wf vp w show ?thesis unfolding M1_def by (intro conjI)
qed

section \<open>A successor-feature loop that never ends\<close>

lemma chain2_half_value:
  "value_iteration (chain2 [Fin 0] [Fin 1]) [Fin 1] (1 / 100) (1 / 2) 10 =
     Some ([Fin 1, Fin 0], [[Fin 1], [Fin 1]])"
proof -
  have c: "f32_round (3 / 2) = Fin (3 / 2)" "f32_round (- (1 / 2)) = Fin (- (1 / 2))"
    using f32_round_dyadic [of 3 1] f32_round_dyadic [of "- 1" 1] by simp_all
  have q: "fadd (Fin 1) (fmul (f32_round (1 / 2)) (Fin 1)) = Fin (3 / 2)"
    "fsub (Fin 1) (Fin (3 / 2)) = Fin (- (1 / 2))"
    by (simp_all add: f32_round_half fsub_def c)
  have h: "\<bar>0 :: real\<bar> \<le> 2 ^ 100" "\<bar>1 :: real\<bar> \<le> 2 ^ 100" "\<bar>1 / 2 :: real\<bar> \<le> 1"
    "\<bar>10 :: real\<bar> \<le> 2 ^ 20" "(0 :: real) < 5368709 / 536870912"
    "(5368709 / 536870912 :: real) \<le> max \<bar>3 / 2\<bar> \<bar>1\<bar>"
    by simp_all
  note th = chain2_run [OF dot_0_1 dot_1_1 h(1-4) q f32_round_hundredth h(5,6)]
  then show ?thesis by (rule conjunct2 [THEN conjunct2])
qed

lemma tdist_single:
  "f32_round (x - y) = Fin z \<Longrightarrow> f32_round \<bar>z\<bar> = Fin \<bar>z\<bar> \<Longrightarrow> tdist [Fin x] [Fin y] = Fin \<bar>z\<bar>"
  by (simp add: tdist_def fsub_def)

lemma chain1_sf_sweep:
  fixes a :: real
  assumes "a = 0 \<or> a = 1 / 2"
  shows "sf_sweep ((chain2 [Fin 0] [Fin 1])\<lparr>Wtrain := [[Fin 1]], Ntrain := 1\<rparr>) (1 / 2)
           [[Fin 1], [Fin 1]] 0 \<lparr>psi = [[[Fin a], [Fin 1]]], sf_delta = d, sf_count = k\<rparr> =
         \<lparr>psi = [[[Fin (1 / 2)], [Fin 1]]], sf_delta = Fin (1 / 2 - a), sf_count = Suc k\<rparr>"
proof -
  have t1: "tdist [Fin 1] [Fin 1] = Fin 0"
    using tdist_single [of 1 1 0] by (simp add: f32_round_0)
  have t0: "tdist [Fin (1 / 2)] [Fin a] = Fin (1 / 2 - a)"
  proof -
    have "f32_round (1 / 2 - a) = Fin (1 / 2 - a) \<and> \<bar>1 / 2 - a\<bar> = 1 / 2 - a"
    proof (cases "a = 0")
      case True
      then show ?thesis by (simp add: f32_round_half)
    next
      case False
      with assms have a: "a = 1 / 2" by simp
      show ?thesis unfolding a by (simp add: f32_round_0)
    qed
    then show ?thesis using tdist_single [of "1 / 2" a "1 / 2 - a"] by simp
  qed
  have u: "sf_update ((chain2 [Fin 0] [Fin 1])\<lparr>Wtrain := W, Ntrain := j\<rparr>) (1 / 2)
      [[Fin 1], [Fin 1]] [[Fin b], [Fin 1]] 0 = [Fin (1 / 2)]"
    "sf_update ((chain2 [Fin 0] [Fin 1])\<lparr>Wtrain := W, Ntrain := j\<rparr>) (1 / 2)
      [[Fin 1], [Fin 1]] [[Fin b], [Fin 1]] (Suc 0) = [Fin 1]" for b W j
    by (simp_all add: chain1_fields sf_update_def vecmat_def ncols_def column_def dot_def
        scale_def vadd_def upt2 f32_round_0 f32_round_1 f32_round_half)
  show ?thesis
    by (simp add: sf_sweep_def chain1_fields(3) upt2 sf_body_def Let_def u t0 t1 pymax_def)
      (use assms in auto)
qed

lemma chain1_sf_iter:
  "(sf_sweep ((chain2 [Fin 0] [Fin 1])\<lparr>Wtrain := [[Fin 1]], Ntrain := 1\<rparr>) (1 / 2)
      [[Fin 1], [Fin 1]] 0 ^^ Suc n)
     \<lparr>psi = [[[Fin 0], [Fin 1]]], sf_delta = d, sf_count = 0\<rparr> =
   \<lparr>psi = [[[Fin (1 / 2)], [Fin 1]]], sf_delta = Fin (if n = 0 then 1 / 2 else 0),
    sf_count = Suc n\<rparr>"
proof (induction n)
  case 0
  show ?case using chain1_sf_sweep [of 0 d 0] by simp
next
  case (Suc n)
  let ?f = "sf_sweep ((chain2 [Fin 0] [Fin 1])\<lparr>Wtrain := [[Fin 1]], Ntrain := 1\<rparr>) (1 / 2)
      [[Fin 1], [Fin 1]] 0"
  have "(?f ^^ Suc (Suc n)) \<lparr>psi = [[[Fin 0], [Fin 1]]], sf_delta = d, sf_count = 0\<rparr> =
      ?f ((?f ^^ Suc n) \<lparr>psi = [[[Fin 0], [Fin 1]]], sf_delta = d, sf_count = 0\<rparr>)"
    by simp
  also have "\<dots> = \<lparr>psi = [[[Fin (1 / 2)], [Fin 1]]], sf_delta = Fin (1 / 2 - 1 / 2),
      sf_count = Suc (Suc n)\<rparr>"
    unfolding Suc.IH by (rule chain1_sf_sweep) simp
  finally show ?case by simp
qed

text \<open>
  Claim C6 as it is stated fails, for the reason claim C4 does: the loop of \<^verbatim>\<open>sfgpi_train\<close>
  compares with the 32-bit float of the threshold. On the chain of two states with the one
  training task \<open>w = [1]\<close>, \<open>gamma = 1/2\<close> and the threshold \<open>10\<^sup>-\<^sup>5\<^sup>0\<close>, whose float is 0, the second
  sweep changes nothing, so that its largest change 0 is below the threshold, and the loop
  goes on all the same: neither the loop of the task nor \<^verbatim>\<open>sfgpi_train\<close> returns.
\<close>

theorem sf_threshold_float_counterexample:
  "f32_round (1 / 10 ^ 50) = Fin 0
   \<and> (sf_sweep ((chain2 [Fin 0] [Fin 1])\<lparr>Wtrain := [[Fin 1]], Ntrain := 1\<rparr>) (1 / 2)
        [[Fin 1], [Fin 1]] 0 ^^ 2)
       \<lparr>psi = [[[Fin 0], [Fin 1]]], sf_delta = f32_round (1 / 10 ^ 50), sf_count = 0\<rparr> =
     \<lparr>psi = [[[Fin (1 / 2)], [Fin 1]]], sf_delta = Fin 0, sf_count = 2\<rparr>
   \<and> sf_task ((chain2 [Fin 0] [Fin 1])\<lparr>Wtrain := [[Fin 1]], Ntrain := 1\<rparr>) (1 / 10 ^ 50) (1 / 2)
       [([Fin 1, Fin 0], [[Fin 1], [Fin 1]])] 0 [[[Fin 0], [Fin 1]]] = None
   \<and> sfgpi_train ((chain2 [Fin 0] [Fin 1])\<lparr>Wtrain := [[Fin 1]], Ntrain := 1\<rparr>) (1 / 10 ^ 50)
       (1 / 2) 10 = None"
proof -
  define M1 where "M1 = (chain2 [Fin 0] [Fin 1])\<lparr>Wtrain := [[Fin 1]], Ntrain := 1\<rparr>"
  let ?thr = "1 / 10 ^ 50 :: real"
  let ?p = "[[Fin 1], [Fin 1 :: f32]]"
  let ?st0 = "\<lparr>psi = [[[Fin 0], [Fin 1]]], sf_delta = f32_round ?thr, sf_count = 0\<rparr>"
  have it: "(sf_sweep M1 (1 / 2) ?p 0 ^^ Suc n)
        \<lparr>psi = [[[Fin 0], [Fin 1]]], sf_delta = d, sf_count = 0\<rparr> =
      \<lparr>psi = [[[Fin (1 / 2)], [Fin 1]]], sf_delta = Fin (if n = 0 then 1 / 2 else 0),
       sf_count = Suc n\<rparr>" for n d
    unfolding M1_def by (rule chain1_sf_iter)
  have 2: "(sf_sweep M1 (1 / 2) ?p 0 ^^ 2) ?st0 =
      \<lparr>psi = [[[Fin (1 / 2)], [Fin 1]]], sf_delta = Fin 0, sf_count = 2\<rparr>"
    unfolding numeral_2_eq_2 it by simp
  have "sf_task M1 ?thr (1 / 2) [([Fin 1, Fin 0], ?p)] 0 [[[Fin 0], [Fin 1]]] \<noteq> Some r" for r
  proof
    assume a: "sf_task M1 ?thr (1 / 2) [([Fin 1, Fin 0], ?p)] 0 [[[Fin 0], [Fin 1]]] = Some r"
    from a [unfolded sf_task_iff] obtain n where n: "0 < n"
      "\<not> fge (sf_delta ((sf_sweep M1 (1 / 2) (snd ([([Fin 1, Fin 0], ?p)] ! 0)) 0 ^^ n) ?st0))
            (f32_round ?thr)"
      by blast
    from n(1) obtain k where k: "n = Suc k" by (cases n) simp_all
    have "snd ([([Fin 1, Fin 0], ?p)] ! 0) = ?p" by simp
    from n(2) [unfolded this k it] show False
      unfolding f32_round_tiny_threshold by (auto simp: fge_Fin split: if_splits)
  qed
  then have t: "sf_task M1 ?thr (1 / 2) [([Fin 1, Fin 0], ?p)] 0 [[[Fin 0], [Fin 1]]] = None"
    by (cases "sf_task M1 ?thr (1 / 2) [([Fin 1, Fin 0], ?p)] 0 [[[Fin 0], [Fin 1]]]") simp_all
  have v: "value_iteration M1 [Fin 1] (1 / 100) (1 / 2) 10 = Some ([Fin 1, Fin 0], ?p)"
    using vi_frame [of M1 "chain2 [Fin 0] [Fin 1]" "[Fin 1]" "1 / 100" "1 / 2" 10]
      chain2_half_value
    by (simp add: M1_def)
  have W: "Wtrain M1 = [[Fin 1]]" "Ntrain M1 = 1" "phi M1 = [[Fin 0], [Fin 1]]"
    by (simp_all add: M1_def chain2_def)
  have "sfgpi_train M1 ?thr (1 / 2) 10 =
      sf_tasks M1 ?thr (1 / 2) [([Fin 1, Fin 0], ?p)] [0] [[[Fin 0], [Fin 1]]]"
    unfolding sfgpi_train_def W by (simp add: v)
  also have "\<dots> = None"
    unfolding sf_tasks.simps t by simp
  finally have g: "sfgpi_train M1 ?thr (1 / 2) 10 = None" .
  from f32_round_tiny_threshold 2 t g show ?thesis
    unfolding M1_def by (intro conjI)
qed

section \<open>Blocks of lists\<close>

lemma map_upt_shift: "map g [a..<a + k] = map (\<lambda>c. g (a + c)) [0..<k]"
proof -
  have "[a..<a + k] = map (\<lambda>c. c + a) [0..<k]" by (simp add: map_add_upt add.commute)
  then show ?thesis by (simp add: o_def add.commute)
qed

lemma upt_blocks: "[0..<Suc n * k] = [0..<n * k] @ [n * k..<n * k + k]"
proof -
  have "Suc n * k = n * k + k" by simp
  then show ?thesis using upt_add_eq_append [of 0 "n * k" k] by (simp only: le0)
qed

lemma concat_replicate_blocks:
  "0 < k \<Longrightarrow> concat (map (\<lambda>i. replicate k (f i)) [0..<n]) = map (\<lambda>j. f (j div k)) [0..<n * k]"
proof (induction n)
  case 0
  then show ?case by simp
next
  case (Suc n)
  have "map (\<lambda>j. f (j div k)) [n * k..<n * k + k] = map (\<lambda>c. f ((n * k + c) div k)) [0..<k]"
    by (rule map_upt_shift)
  also have "\<dots> = map (\<lambda>c. f n) [0..<k]"
    using Suc.prems by (intro map_cong) simp_all
  also have "\<dots> = replicate k (f n)" by (simp add: map_replicate_const)
  finally show ?case
    using Suc by (simp only: upt_blocks map_append) simp
qed

lemma concat_replicate_mod:
  "xs \<noteq> [] \<Longrightarrow> concat (replicate n xs) = map (\<lambda>j. xs ! (j mod length xs)) [0..<n * length xs]"
proof (induction n)
  case 0
  then show ?case by simp
next
  case (Suc n)
  let ?k = "length xs"
  have "map (\<lambda>j. xs ! (j mod ?k)) [n * ?k..<n * ?k + ?k] =
        map (\<lambda>c. xs ! ((n * ?k + c) mod ?k)) [0..<?k]"
    by (rule map_upt_shift)
  also have "\<dots> = map (\<lambda>c. xs ! c) [0..<?k]"
    by (intro map_cong) simp_all
  also have "\<dots> = xs" by (rule map_nth)
  finally have last: "map (\<lambda>j. xs ! (j mod ?k)) [n * ?k..<n * ?k + ?k] = xs" .
  have "concat (replicate (Suc n) xs) = concat (replicate n xs) @ xs"
    by (simp add: replicate_append_same [symmetric])
  then show ?case
    using Suc last by (simp only: upt_blocks map_append) simp
qed

lemma length_concat_blocks:
  "\<forall>i<K. length (h i) = n \<Longrightarrow> length (concat (map h [0..<K])) = K * n"
  by (induction K) simp_all

lemma drop_concat_blocks:
  "\<forall>i<K. length (h i) = n \<Longrightarrow> j \<le> K \<Longrightarrow>
   drop (j * n) (concat (map h [0..<K])) = concat (map h [j..<K])"
proof (induction j)
  case 0
  then show ?case by simp
next
  case (Suc j)
  then have j: "j < K" by simp
  have "drop (Suc j * n) (concat (map h [0..<K])) = drop n (drop (j * n) (concat (map h [0..<K])))"
    by (simp add: add.commute)
  also have "\<dots> = drop n (concat (map h [j..<K]))" using Suc by simp
  also have "\<dots> = drop n (h j @ concat (map h [Suc j..<K]))"
    using j by (simp add: upt_conv_Cons)
  also have "\<dots> = concat (map h [Suc j..<K])" using Suc.prems(1) j by simp
  finally show ?case .
qed

lemma take_drop_concat_blocks:
  assumes "\<forall>i<K. length (h i) = n" "j < K"
  shows "take n (drop (j * n) (concat (map h [0..<K]))) = h j"
proof -
  have "drop (j * n) (concat (map h [0..<K])) = h j @ concat (map h [Suc j..<K])"
    using drop_concat_blocks [OF assms(1), of j] assms(2) by (simp add: upt_conv_Cons)
  then show ?thesis using assms by simp
qed

lemma take_drop_map_upt:
  assumes "s < n"
  shows "take k (drop (s * k) (map g [0..<n * k])) = map (\<lambda>c. g (s * k + c)) [0..<k]"
proof -
  have le: "s * k + k \<le> n * k"
  proof -
    have "Suc s * k \<le> n * k" using assms by (intro mult_le_mono1) simp
    then show ?thesis by (simp add: add.commute)
  qed
  have "take k (drop (s * k) (map g [0..<n * k])) = map g (take k (drop (s * k) [0..<n * k]))"
    by (simp add: take_map drop_map)
  also have "take k (drop (s * k) [0..<n * k]) = [s * k..<s * k + k]"
    using le by (simp add: take_upt)
  also have "map g [s * k..<s * k + k] = map (\<lambda>c. g (s * k + c)) [0..<k]"
    by (rule map_upt_shift)
  finally show ?thesis .
qed

lemma tview_blocks:
  assumes "\<forall>i<K. length (h i) = n" "0 < n"
  shows "tview n (map h [0..<K]) = map h [0..<K]"
proof -
  have l: "length (concat (map h [0..<K])) = K * n" by (rule length_concat_blocks [OF assms(1)])
  have "map (\<lambda>i. take n (drop (i * n) (concat (map h [0..<K])))) [0..<K] = map h [0..<K]"
    by (intro map_cong refl) (simp add: take_drop_concat_blocks [OF assms(1)])
  then show ?thesis using assms(2) by (simp add: tview_def Let_def l)
qed

lemma onehot_length: "length (onehot n i) = n"
  by (simp add: onehot_def)

lemma concat_concat_map: "concat (map (\<lambda>i. concat (g i)) xs) = concat (concat (map g xs))"
  by (induction xs) simp_all

lemma usfa_ip1:
  assumes "0 < n" "0 < k"
  shows "tview n (trepeat 1 k (eye n)) = map (\<lambda>j. onehot n (j div k)) [0..<n * k]"
proof -
  have "concat (trepeat 1 k (eye n)) = concat (concat (map (\<lambda>i. replicate k (onehot n i)) [0..<n]))"
    by (simp add: trepeat_def eye_def o_def concat_concat_map)
  also have "\<dots> = concat (map (\<lambda>j. onehot n (j div k)) [0..<n * k])"
    by (simp add: concat_replicate_blocks [OF assms(2)])
  finally have c: "concat (trepeat 1 k (eye n)) = concat (map (\<lambda>j. onehot n (j div k)) [0..<n * k])" .
  have "tview n (trepeat 1 k (eye n)) = tview n (map (\<lambda>j. onehot n (j div k)) [0..<n * k])"
    unfolding tview_def c by (rule refl)
  also have "\<dots> = map (\<lambda>j. onehot n (j div k)) [0..<n * k]"
    by (rule tview_blocks) (simp_all add: onehot_length assms)
  finally show ?thesis .
qed

lemma usfa_ip2:
  assumes "C \<noteq> []"
  shows "trepeat n 1 C = map (\<lambda>j. C ! (j mod length C)) [0..<n * length C]"
proof -
  have "map (\<lambda>row. concat (replicate 1 row)) C = C" by (simp add: map_idI)
  then show ?thesis by (simp add: trepeat_def concat_replicate_mod [OF assms])
qed

lemma map_nth_upt: "map f xs = map (\<lambda>i. f (xs ! i)) [0..<length xs]"
  by (rule nth_equalityI) simp_all

lemma ceil_div_blocks: "0 < k \<Longrightarrow> (n * k + k - Suc 0) div k = (n :: nat)"
proof -
  assume k: "0 < k"
  then have e: "n * k + k - Suc 0 = (k - Suc 0) + n * k" by simp
  have "((k - Suc 0) + n * k) div k = n + (k - Suc 0) div k"
    using k by (intro div_mult_self1) simp
  also have "(k - Suc 0) div k = 0" using k by (intro div_less) simp
  finally show ?thesis unfolding e by simp
qed

lemma div_mod_blocks:
  fixes s k c :: nat
  assumes "c < k"
  shows "(s * k + c) div k = s" "(s * k + c) mod k = c"
proof -
  have k: "k \<noteq> 0" using assms by simp
  have "(s * k + c) div k = s + c div k" using k by (rule div_mult_self3)
  then show "(s * k + c) div k = s" using assms by simp
  have "(s * k + c) mod k = c mod k" by (rule mod_mult_self3)
  then show "(s * k + c) mod k = c" using assms by simp
qed

lemma tsplit_blocks:
  assumes "0 < n" "0 < k"
  shows "tsplit k (map g [0..<n * k]) = map (\<lambda>s. map (\<lambda>c. g (s * k + c)) [0..<k]) [0..<n]"
proof -
  have ne: "map g [0..<n * k] \<noteq> []" using assms by simp
  have d: "(length (map g [0..<n * k]) + k - 1) div k = n"
    using ceil_div_blocks [OF assms(2), of n] by simp
  have "map (\<lambda>i. take k (drop (i * k) (map g [0..<n * k]))) [0..<n] =
        map (\<lambda>s. map (\<lambda>c. g (s * k + c)) [0..<k]) [0..<n]"
    by (intro map_cong refl) (simp add: take_drop_map_upt)
  then show ?thesis
    unfolding tsplit_def d using ne by (simp only: if_False)
qed

section \<open>Generalised policy improvement\<close>

lemma gpi_policy_eq:
  assumes "length (T m) = NS m"
  shows "gpi_policy m w gamma beta vmax =
           map (\<lambda>s. softmax (scale beta (vi_Q m w gamma vmax s))) [0..<NS m]"
proof -
  have "map (\<lambda>Ts. softmax (scale beta (matvec Ts (vadd (matvec (phi m) w) (scale gamma vmax))))) (T m)
      = map (\<lambda>s. softmax (scale beta (matvec (T m ! s) (vadd (matvec (phi m) w) (scale gamma vmax)))))
          [0..<length (T m)]"
    by (rule map_nth_upt)
  then show ?thesis
    by (simp add: gpi_policy_def vi_Q_def Let_def assms o_def)
qed

lemma sfgpi_vmax:
  assumes ne: "ps \<noteq> []" and sh: "\<forall>psic\<in>set ps. length psic = NS m"
  shows "max_dim0 (map (\<lambda>psic. matvec psic w) ps) =
           map (\<lambda>s'. tmax (map (\<lambda>c. dot (ps ! c ! s') w) [0..<length ps])) [0..<NS m]"
proof -
  let ?PW = "map (\<lambda>psic. matvec psic w) ps"
  have nc: "ncols ?PW = NS m"
    using ne sh by (cases ps) (simp_all add: ncols_def matvec_def)
  have "column ?PW s' = map (\<lambda>c. dot (ps ! c ! s') w) [0..<length ps]" if "s' < NS m" for s'
  proof -
    have "column ?PW s' = map (\<lambda>psic. matvec psic w ! s') ps"
      by (simp add: column_def o_def)
    also have "\<dots> = map (\<lambda>c. matvec (ps ! c) w ! s') [0..<length ps]"
      by (rule map_nth_upt)
    also have "\<dots> = map (\<lambda>c. dot (ps ! c ! s') w) [0..<length ps]"
      using sh that by (intro map_cong) (simp_all add: matvec_def)
    finally show ?thesis .
  qed
  then show ?thesis by (simp add: max_dim0_def nc)
qed

lemma map_vi_Q_nth:
  assumes "wf_mtrl m" "length Vc = NS m" "s < NS m"
  shows "vi_Q m w gamma Vc s =
     map (\<lambda>a. dot (T m ! s ! a)
                (map (\<lambda>s'. fadd (dot (phi m ! s') w) (fmul (f32_round gamma) (Vc ! s'))) [0..<NS m]))
       [0..<NA m]"
proof (rule nth_equalityI)
  have NA: "0 < NA m" using assms(1) by (simp add: wf_mtrl_def)
  show "length (vi_Q m w gamma Vc s) =
    length (map (\<lambda>a. dot (T m ! s ! a)
                (map (\<lambda>s'. fadd (dot (phi m ! s') w) (fmul (f32_round gamma) (Vc ! s'))) [0..<NS m]))
       [0..<NA m])"
    using vi_Q_nth(1) [OF assms NA] by simp
  fix a assume "a < length (vi_Q m w gamma Vc s)"
  then have a: "a < NA m" using vi_Q_nth(1) [OF assms NA, of w gamma] by simp
  show "vi_Q m w gamma Vc s ! a =
    map (\<lambda>a. dot (T m ! s ! a)
                (map (\<lambda>s'. fadd (dot (phi m ! s') w) (fmul (f32_round gamma) (Vc ! s'))) [0..<NS m]))
       [0..<NA m] ! a"
    using vi_Q_nth(2) [OF assms a] a by simp
qed

lemma tmax_fold_Fin: "fold (\<lambda>x acc. if flt acc x then x else acc) (map Fin xs) (Fin a) =
    Fin (Max (insert a (set xs)))"
proof (induction xs arbitrary: a)
  case Nil
  then show ?case by simp
next
  case (Cons x xs)
  let ?f = "\<lambda>x acc. if flt acc x then x else acc"
  have step: "fold ?f (map Fin (x # xs)) (Fin a) = fold ?f (map Fin xs) (Fin (max a x))"
    by (auto simp: max_def)
  have M: "Max (insert a (set (x # xs))) = Max (insert (max a x) (set xs))"
  proof (cases "set xs = {}")
    case True
    then show ?thesis by simp
  next
    case False
    then show ?thesis by (simp add: max.assoc)
  qed
  show ?case unfolding step M by (rule Cons.IH)
qed

lemma tmax_Fin: "xs \<noteq> [] \<Longrightarrow> tmax (map Fin xs) = Fin (Max (set xs))"
proof -
  assume "xs \<noteq> []"
  then obtain x ys where xs: "xs = x # ys" by (cases xs) simp_all
  have "NaN \<notin> set (map Fin xs)" by auto
  then show ?thesis
    unfolding tmax_def xs using tmax_fold_Fin [of ys x] by (simp del: set_map)
qed

text \<open>
  Claim C7. For a stack \<open>ps\<close> of successor features, one slice of \<open>NS\<close> rows for every
  candidate, \<^verbatim>\<open>sfgpi_predict\<close> returns for every state \<open>s\<close> the row
  \<open>pi(s) = softmax (beta * Q(s, \<cdot>))\<close> with \<open>Q(s, \<cdot>) = T[s] @ (phi @ w + gamma * vmax)\<close> and
  \<open>vmax(s') = max\<^sub>c psi\<^sub>c(s') \<cdot> w\<close>, all in 32-bit floats; the maximum of \<^verbatim>\<open>torch\<close> is the
  largest value when the values are finite.
\<close>

theorem sfgpi_predict_spec:
  assumes wf: "wf_mtrl m" and ne: "ps \<noteq> []" and sh: "\<forall>psic\<in>set ps. length psic = NS m"
    and s: "s < NS m"
  shows "length (sfgpi_predict m ps w gamma beta) = NS m
       \<and> sfgpi_predict m ps w gamma beta ! s =
           softmax (map (fmul (f32_round beta))
             (map (\<lambda>a. dot (T m ! s ! a)
                (map (\<lambda>s'. fadd (dot (phi m ! s') w)
                        (fmul (f32_round gamma)
                           (tmax (map (\<lambda>c. dot (ps ! c ! s') w) [0..<length ps]))))
                   [0..<NS m]))
                [0..<NA m]))
       \<and> (\<forall>s' vs. map (\<lambda>c. dot (ps ! c ! s') w) [0..<length ps] = map Fin vs \<longrightarrow>
             tmax (map (\<lambda>c. dot (ps ! c ! s') w) [0..<length ps]) = Fin (Max (set vs)))"
proof -
  define vmax where "vmax = max_dim0 (map (\<lambda>psic. matvec psic w) ps)"
  have lT: "length (T m) = NS m" using wf by (simp add: wf_mtrl_def)
  have vm: "vmax = map (\<lambda>s'. tmax (map (\<lambda>c. dot (ps ! c ! s') w) [0..<length ps])) [0..<NS m]"
    unfolding vmax_def by (rule sfgpi_vmax [OF ne sh])
  have lv: "length vmax = NS m" by (simp add: vm)
  have p: "sfgpi_predict m ps w gamma beta =
             map (\<lambda>s. softmax (scale beta (vi_Q m w gamma vmax s))) [0..<NS m]"
    by (simp add: sfgpi_predict_def Let_def vmax_def [symmetric] gpi_policy_eq [OF lT])
  have "vi_Q m w gamma vmax s =
     map (\<lambda>a. dot (T m ! s ! a)
                (map (\<lambda>s'. fadd (dot (phi m ! s') w) (fmul (f32_round gamma) (vmax ! s'))) [0..<NS m]))
       [0..<NA m]"
    by (rule map_vi_Q_nth [OF wf lv s])
  also have "\<dots> = map (\<lambda>a. dot (T m ! s ! a)
                (map (\<lambda>s'. fadd (dot (phi m ! s') w)
                        (fmul (f32_round gamma)
                           (tmax (map (\<lambda>c. dot (ps ! c ! s') w) [0..<length ps]))))
                   [0..<NS m]))
                [0..<NA m]"
    by (intro map_cong refl arg_cong [where f = "dot (T m ! s ! _)"]) (simp add: vm)
  finally have q: "vi_Q m w gamma vmax s = map (\<lambda>a. dot (T m ! s ! a)
                (map (\<lambda>s'. fadd (dot (phi m ! s') w)
                        (fmul (f32_round gamma)
                           (tmax (map (\<lambda>c. dot (ps ! c ! s') w) [0..<length ps]))))
                   [0..<NS m]))
                [0..<NA m]" .
  have 3: "tmax (map (\<lambda>c. dot (ps ! c ! s') w) [0..<length ps]) = Fin (Max (set vs))"
    if "map (\<lambda>c. dot (ps ! c ! s') w) [0..<length ps] = map Fin vs" for s' vs
  proof -
    from that have "length vs = length ps" by (metis length_map length_upt diff_zero)
    with ne have "vs \<noteq> []" by auto
    then show ?thesis unfolding that by (rule tmax_Fin)
  qed
  have 1: "length (sfgpi_predict m ps w gamma beta) = NS m" by (simp add: p)
  have 2: "sfgpi_predict m ps w gamma beta ! s =
           softmax (map (fmul (f32_round beta))
             (map (\<lambda>a. dot (T m ! s ! a)
                (map (\<lambda>s'. fadd (dot (phi m ! s') w)
                        (fmul (f32_round gamma)
                           (tmax (map (\<lambda>c. dot (ps ! c ! s') w) [0..<length ps]))))
                   [0..<NS m]))
                [0..<NA m]))"
    using s unfolding p q [symmetric] by (simp add: scale_def)
  from 1 2 3 show ?thesis by blast
qed

lemma f32_consts:
  "f32_round (3 / 2) = Fin (3 / 2)" "f32_round (3 / 4) = Fin (3 / 4)" "f32_round 15 = Fin 15"
  "f32_round 5 = Fin 5" "f32_round (5 / 2) = Fin (5 / 2)" "f32_round (7 / 2) = Fin (7 / 2)"
  "f32_round 35 = Fin 35" "f32_round (5 / 4) = Fin (5 / 4)" "f32_round (7 / 4) = Fin (7 / 4)"
  using f32_round_dyadic [of 3 1] f32_round_dyadic [of 3 2] f32_round_int [of 15]
    f32_round_int [of 5] f32_round_dyadic [of 5 1] f32_round_dyadic [of 7 1]
    f32_round_int [of 35] f32_round_dyadic [of 5 2] f32_round_dyadic [of 7 2]
  by simp_all

theorem sfgpi_predict_spec_witness:
  "wf_mtrl (chain2 [Fin 0] [Fin 1]) \<and> [[[Fin 0], [Fin 1]]] \<noteq> []
   \<and> (0 :: nat) < NS (chain2 [Fin 0] [Fin 1])
   \<and> length (sfgpi_predict (chain2 [Fin 0] [Fin 1]) [[[Fin 0], [Fin 1]]] [Fin 1] (1 / 2) 10) = 2
   \<and> sfgpi_predict (chain2 [Fin 0] [Fin 1]) [[[Fin 0], [Fin 1]]] [Fin 1] (1 / 2) 10 ! 0 = [Fin 1]"
proof -
  have wf: "wf_mtrl (chain2 [Fin 0] [Fin 1])" by (simp add: chain2_wf)
  have ne: "[[[Fin 0], [Fin 1]]] \<noteq> []" by simp
  have sh: "\<forall>psic\<in>set [[[Fin 0], [Fin 1]]]. length psic = NS (chain2 [Fin 0] [Fin 1])"
    by (simp add: chain2_def)
  have s: "(0 :: nat) < NS (chain2 [Fin 0] [Fin 1])" by (simp add: chain2_def)
  have N: "NS (chain2 [Fin 0] [Fin 1]) = 2" "NA (chain2 [Fin 0] [Fin 1]) = 1"
    "T (chain2 [Fin 0] [Fin 1]) = [[[Fin 0, Fin 1]], [[Fin 0, Fin 0]]]"
    "phi (chain2 [Fin 0] [Fin 1]) = [[Fin 0], [Fin 1]]"
    by (simp_all add: chain2_def)
  from sfgpi_predict_spec [OF wf ne sh s, of "[Fin 1]" "1 / 2" 10]
  have "length (sfgpi_predict (chain2 [Fin 0] [Fin 1]) [[[Fin 0], [Fin 1]]] [Fin 1] (1 / 2) 10) = 2
   \<and> sfgpi_predict (chain2 [Fin 0] [Fin 1]) [[[Fin 0], [Fin 1]]] [Fin 1] (1 / 2) 10 ! 0 = [Fin 1]"
    by (simp add: N upt2 dot_def tmax_def softmax_single f32_round_0 f32_round_1 f32_round_half
        f32_round_10 f32_consts)
  with wf ne s show ?thesis by (intro conjI) simp_all
qed

section \<open>Universal successor feature approximator: prediction\<close>

lemma usfa_vmax:
  assumes n: "0 < NS m" and ne: "C \<noteq> []"
  shows "map tmax (tsplit (length C)
           (matvec (map usfn (tcat1 (tview (NS m) (trepeat 1 (length C) (eye (NS m))))
                                    (trepeat (NS m) 1 C))) w)) =
         map (\<lambda>s. tmax (map (\<lambda>c. dot (usfn (onehot (NS m) s @ C ! c)) w) [0..<length C]))
           [0..<NS m]"
proof -
  let ?n = "NS m" and ?k = "length C"
  have k: "0 < ?k" using ne by simp
  let ?g = "\<lambda>j. dot (usfn (onehot ?n (j div ?k) @ C ! (j mod ?k))) w"
  have ip: "tcat1 (tview ?n (trepeat 1 ?k (eye ?n))) (trepeat ?n 1 C) =
            map (\<lambda>j. onehot ?n (j div ?k) @ C ! (j mod ?k)) [0..<?n * ?k]"
    unfolding usfa_ip1 [OF n k] usfa_ip2 [OF ne]
    by (simp add: tcat1_def zip_map_map zip_same_conv_map)
  have L: "matvec (map usfn (tcat1 (tview ?n (trepeat 1 ?k (eye ?n))) (trepeat ?n 1 C))) w =
           map ?g [0..<?n * ?k]"
    unfolding ip by (simp add: matvec_def o_def)
  have "map tmax (tsplit ?k (map ?g [0..<?n * ?k])) =
        map (\<lambda>s. tmax (map (\<lambda>c. ?g (s * ?k + c)) [0..<?k])) [0..<?n]"
    unfolding tsplit_blocks [OF n k] by (simp add: o_def)
  also have "\<dots> = map (\<lambda>s. tmax (map (\<lambda>c. dot (usfn (onehot ?n s @ C ! c)) w) [0..<?k])) [0..<?n]"
  proof (intro map_cong refl arg_cong [where f = tmax])
    fix s c assume "c \<in> set [0..<?k]"
    then have c: "c < ?k" by simp
    show "?g (s * ?k + c) = dot (usfn (onehot ?n s @ C ! c)) w"
      unfolding div_mod_blocks [OF c] by (rule refl)
  qed
  finally show ?thesis unfolding L .
qed

lemma psi_hat_vmax:
  assumes ne: "C \<noteq> []"
  shows "max_dim0 (map (\<lambda>psic. matvec psic w) (psi_hat m usfn C)) =
         map (\<lambda>s. tmax (map (\<lambda>c. dot (usfn (onehot (NS m) s @ C ! c)) w) [0..<length C]))
           [0..<NS m]"
proof -
  have ne': "psi_hat m usfn C \<noteq> []" using ne by (simp add: psi_hat_def)
  have sh: "\<forall>psic\<in>set (psi_hat m usfn C). length psic = NS m"
    by (auto simp: psi_hat_def)
  have l: "length (psi_hat m usfn C) = length C" by (simp add: psi_hat_def)
  have "max_dim0 (map (\<lambda>psic. matvec psic w) (psi_hat m usfn C)) =
        map (\<lambda>s'. tmax (map (\<lambda>c. dot (psi_hat m usfn C ! c ! s') w) [0..<length C])) [0..<NS m]"
    using sfgpi_vmax [OF ne' sh, of w] by (simp add: l)
  also have "\<dots> =
     map (\<lambda>s. tmax (map (\<lambda>c. dot (usfn (onehot (NS m) s @ C ! c)) w) [0..<length C])) [0..<NS m]"
    by (intro map_cong refl arg_cong [where f = tmax]) (simp_all add: psi_hat_def)
  finally show ?thesis .
qed

text \<open>
  Claim C8. \<^verbatim>\<open>usfa_predict\<close> without a candidate set takes the training tasks \<^verbatim>\<open>Wtrain\<close>, and
  for every candidate set that is not empty it returns the policy that \<^verbatim>\<open>sfgpi_predict\<close>
  returns on the tensor \<open>psi_hat\<close> of the approximated successor features,
  \<open>psi_hat[c][s] = usfn (onehot(s) \<oplus> C[c])\<close>.
\<close>

theorem usfa_predict_refines:
  assumes "0 < NS m" and "(case C of None \<Rightarrow> Wtrain m | Some c \<Rightarrow> c) \<noteq> []"
  shows "usfa_predict m usfn w C beta gamma =
           sfgpi_predict m (psi_hat m usfn (case C of None \<Rightarrow> Wtrain m | Some c \<Rightarrow> c)) w gamma beta
       \<and> usfa_predict m usfn w None beta gamma =
           usfa_predict m usfn w (Some (Wtrain m)) beta gamma"
proof -
  define C' where "C' = (case C of None \<Rightarrow> Wtrain m | Some c \<Rightarrow> c)"
  have ne: "C' \<noteq> []" using assms(2) by (simp add: C'_def)
  have "usfa_predict m usfn w C beta gamma =
          gpi_policy m w gamma beta
            (map tmax (tsplit (length C')
              (matvec (map usfn (tcat1 (tview (NS m) (trepeat 1 (length C') (eye (NS m))))
                                       (trepeat (NS m) 1 C'))) w)))"
    by (simp add: usfa_predict_def Let_def C'_def)
  also have "\<dots> = gpi_policy m w gamma beta
                     (max_dim0 (map (\<lambda>psic. matvec psic w) (psi_hat m usfn C')))"
    unfolding usfa_vmax [OF assms(1) ne] psi_hat_vmax [OF ne] by (rule refl)
  also have "\<dots> = sfgpi_predict m (psi_hat m usfn C') w gamma beta"
    by (simp add: sfgpi_predict_def Let_def)
  finally have 1: "usfa_predict m usfn w C beta gamma =
      sfgpi_predict m (psi_hat m usfn C') w gamma beta" .
  have 2: "usfa_predict m usfn w None beta gamma = usfa_predict m usfn w (Some (Wtrain m)) beta gamma"
    by (simp add: usfa_predict_def)
  from 1 2 show ?thesis unfolding C'_def by (rule conjI)
qed

theorem usfa_predict_refines_witness:
  "(0 :: nat) < NS (chain2 [Fin 0] [Fin 1])
   \<and> (case Some [[Fin 5]] of None \<Rightarrow> Wtrain (chain2 [Fin 0] [Fin 1]) | Some c \<Rightarrow> c) \<noteq> []
   \<and> usfa_predict (chain2 [Fin 0] [Fin 1]) (drop 2) [Fin 1] (Some [[Fin 5]]) 10 (1 / 2) =
       sfgpi_predict (chain2 [Fin 0] [Fin 1]) (psi_hat (chain2 [Fin 0] [Fin 1]) (drop 2) [[Fin 5]])
         [Fin 1] (1 / 2) 10
   \<and> psi_hat (chain2 [Fin 0] [Fin 1]) (drop 2) [[Fin 5]] = [[[Fin 5], [Fin 5]]]
   \<and> sfgpi_predict (chain2 [Fin 0] [Fin 1]) (psi_hat (chain2 [Fin 0] [Fin 1]) (drop 2) [[Fin 5]])
       [Fin 1] (1 / 2) 10 = [[Fin 1], [Fin 1]]"
proof -
  have n: "(0 :: nat) < NS (chain2 [Fin 0] [Fin 1])" by (simp add: chain2_def)
  have c: "(case Some [[Fin 5]] of None \<Rightarrow> Wtrain (chain2 [Fin 0] [Fin 1]) | Some c \<Rightarrow> c) \<noteq> []"
    by simp
  have h: "psi_hat (chain2 [Fin 0] [Fin 1]) (drop 2) [[Fin 5]] = [[[Fin 5], [Fin 5]]]"
    by (simp add: psi_hat_def chain2_def upt2 onehot_def)
  have v: "sfgpi_predict (chain2 [Fin 0] [Fin 1]) [[[Fin 5], [Fin 5]]] [Fin 1] (1 / 2) 10 =
       [[Fin 1], [Fin 1]]"
    by (simp add: sfgpi_predict_def gpi_policy_def Let_def chain2_def matvec_def scale_def
        vadd_def max_dim0_def ncols_def column_def upt2 tmax_def dot_def softmax_single
        f32_round_0 f32_round_1 f32_round_half f32_round_10 f32_consts)
  from usfa_predict_refines [OF n c, of "drop 2" "[Fin 1]" 10 "1 / 2"]
  have "usfa_predict (chain2 [Fin 0] [Fin 1]) (drop 2) [Fin 1] (Some [[Fin 5]]) 10 (1 / 2) =
       sfgpi_predict (chain2 [Fin 0] [Fin 1]) (psi_hat (chain2 [Fin 0] [Fin 1]) (drop 2) [[Fin 5]])
         [Fin 1] (1 / 2) 10"
    by simp
  with n c h v show ?thesis unfolding h by (intro conjI)
qed

end
